theory Spec2Isabelle
  imports Main "HOL-Library.Word"
begin

section \<open>The circuit breaker of cppbreaker\<close>

text \<open>
  A shallow embedding of the class \<^verbatim>\<open>CircuitBreaker\<close>: its declaration in
  \<^verbatim>\<open>circuit_breaker.h\<close>, with \<^verbatim>\<open>Counts\<close>, \<^verbatim>\<open>State\<close>, \<^verbatim>\<open>Settings\<close> and \<^verbatim>\<open>ResultCode\<close>, and
  the definitions of its member functions.

  \<^item> The members of \<^verbatim>\<open>CircuitBreaker\<close> are the fields of a record; every member function
    takes the record and returns the updated one.
  \<^item> Each member function reads \<^verbatim>\<open>std::chrono::system_clock::now()\<close> once, under the
    mutex; the model takes that reading as the argument \<open>now\<close>. The mutex makes every member
    function one atomic step, so a concurrent execution is an interleaving of such steps.
  \<^item> \<^verbatim>\<open>uint32_t\<close> and \<^verbatim>\<open>uint64_t\<close> are \<open>32 word\<close> and \<open>64 word\<close>: \<^verbatim>\<open>++\<close> wraps.
  \<^item> A \<^verbatim>\<open>time_point\<close> and a \<^verbatim>\<open>std::chrono::nanoseconds\<close> hold a signed 64-bit count of
    nanoseconds: they are \<open>64 word\<close>, read in two's complement. \<^verbatim>\<open>now + d\<close> is the sum of
    the two counts in 64 bits, which wraps around when it overflows (as the compiled
    addition does), and \<^verbatim>\<open>expiry_ < now\<close> compares the counts as signed numbers (\<open><s\<close>).
  \<^item> A \<^verbatim>\<open>std::function\<close> member is an \<open>option\<close>: \<open>None\<close> is \<^verbatim>\<open>nullptr\<close>. Calling an
    empty \<^verbatim>\<open>std::function\<close> throws \<^verbatim>\<open>std::bad_function_call\<close>, which is the error value
    of the model. The hook \<^verbatim>\<open>on_state_change\<close> returns \<^verbatim>\<open>void\<close>; what it does is outside
    the breaker, so the model records each call of it, with its arguments, in the trace
    \<open>cb_notified\<close>.
  \<^item> A member \<^verbatim>\<open>x_\<close> of the class is the field \<open>cb_x\<close> of the record (a name cannot
    end with an underscore here).
\<close>

subsection \<open>Counts\<close>

record Counts =
  requests :: "32 word"
  total_successes :: "32 word"
  total_failures :: "32 word"
  consecutive_successes :: "32 word"
  consecutive_failures :: "32 word"

definition Counts_onRequest :: "Counts \<Rightarrow> Counts" where
  "Counts_onRequest c = c\<lparr>requests := requests c + 1\<rparr>"

definition Counts_onSuccess :: "Counts \<Rightarrow> Counts" where
  "Counts_onSuccess c =
     c\<lparr>total_successes := total_successes c + 1,
       consecutive_successes := consecutive_successes c + 1,
       consecutive_failures := 0\<rparr>"

definition Counts_onFailure :: "Counts \<Rightarrow> Counts" where
  "Counts_onFailure c =
     c\<lparr>total_failures := total_failures c + 1,
       consecutive_failures := consecutive_failures c + 1,
       consecutive_successes := 0\<rparr>"

definition Counts_clear :: "Counts \<Rightarrow> Counts" where
  "Counts_clear c =
     c\<lparr>requests := 0, total_successes := 0, total_failures := 0,
       consecutive_successes := 0, consecutive_failures := 0\<rparr>"

text \<open>A default-constructed \<^verbatim>\<open>Counts\<close>: every member initialiser is 0.\<close>

definition Counts_init :: Counts where
  "Counts_init =
     \<lparr>requests = 0, total_successes = 0, total_failures = 0,
      consecutive_successes = 0, consecutive_failures = 0\<rparr>"

subsection \<open>State, Settings, ResultCode\<close>

datatype State = STATE_CLOSED | STATE_HALF_OPEN | STATE_OPEN

type_synonym time_point = "64 word"
type_synonym nanoseconds = "64 word"

definition seconds :: "64 word \<Rightarrow> nanoseconds" where
  "seconds n = n * 1000000000"

record Settings =
  name :: string
  max_requests :: "32 word"
  interval :: nanoseconds
  timeout :: nanoseconds
  ready_to_trip :: "(Counts \<Rightarrow> bool) option"
  on_state_change :: "(string \<Rightarrow> State \<Rightarrow> State \<Rightarrow> unit) option"

text \<open>A default-constructed \<^verbatim>\<open>Settings\<close>, from the member initialisers.\<close>

definition Settings_init :: Settings where
  "Settings_init =
     \<lparr>name = [], max_requests = 1, interval = 0, timeout = seconds 60,
      ready_to_trip = None, on_state_change = None\<rparr>"

text \<open>
  The enumerators of \<^verbatim>\<open>ResultCode\<close>, as the \<^verbatim>\<open>int\<close> that \<^verbatim>\<open>beforeRequest\<close> returns:
  \<^verbatim>\<open>-0x80000000\<close> and \<^verbatim>\<open>-0x70000000\<close>.
\<close>

definition ResultCodeOK :: int where
  "ResultCodeOK = 0"

definition ResultCodeErrTooManyRequests :: int where
  "ResultCodeErrTooManyRequests = - 2147483648"

definition ResultCodeErrOpenState :: int where
  "ResultCodeErrOpenState = - 1879048192"

datatype error = bad_function_call

subsection \<open>CircuitBreaker\<close>

record CircuitBreaker =
  cb_settings :: Settings
  cb_state :: State
  cb_generation :: "64 word"
  cb_counts :: Counts
  cb_expiry :: time_point
  cb_notified :: "(string \<times> State \<times> State) list"

definition defaultReadyToTrip :: "Counts \<Rightarrow> bool" where
  "defaultReadyToTrip counts \<longleftrightarrow> consecutive_failures counts > 5"

definition toNewGeneration :: "time_point \<Rightarrow> CircuitBreaker \<Rightarrow> CircuitBreaker" where
  "toNewGeneration now cb =
     (let cb1 = cb\<lparr>cb_generation := cb_generation cb + 1, cb_counts := Counts_clear (cb_counts cb)\<rparr>;
          zero = 0
      in case cb_state cb1 of
           STATE_CLOSED \<Rightarrow>
             if interval (cb_settings cb1) = 0 then cb1\<lparr>cb_expiry := zero\<rparr>
             else cb1\<lparr>cb_expiry := now + interval (cb_settings cb1)\<rparr>
         | STATE_OPEN \<Rightarrow> cb1\<lparr>cb_expiry := now + timeout (cb_settings cb1)\<rparr>
         | STATE_HALF_OPEN \<Rightarrow> cb1\<lparr>cb_expiry := zero\<rparr>)"

definition setState :: "State \<Rightarrow> time_point \<Rightarrow> CircuitBreaker \<Rightarrow> CircuitBreaker" where
  "setState st now cb =
     (if cb_state cb = st then cb
      else
        let prev = cb_state cb;
            cb1 = toNewGeneration now (cb\<lparr>cb_state := st\<rparr>)
        in case on_state_change (cb_settings cb1) of
             None \<Rightarrow> cb1
           | Some f \<Rightarrow> cb1\<lparr>cb_notified := cb_notified cb1 @ [(name (cb_settings cb1), prev, st)]\<rparr>)"

text \<open>
  \<^verbatim>\<open>currentState\<close> returns the generation and writes the state through \<^verbatim>\<open>*st\<close>: the model
  returns both, and the breaker.
\<close>

definition currentState :: "time_point \<Rightarrow> CircuitBreaker \<Rightarrow> 64 word \<times> State \<times> CircuitBreaker" where
  "currentState now cb =
     (let cb1 =
        (case cb_state cb of
           STATE_CLOSED \<Rightarrow>
             if cb_expiry cb \<noteq> 0 \<and> cb_expiry cb <s now then toNewGeneration now cb else cb
         | STATE_OPEN \<Rightarrow>
             if cb_expiry cb <s now then setState STATE_HALF_OPEN now cb else cb
         | STATE_HALF_OPEN \<Rightarrow> cb)
      in (cb_generation cb1, cb_state cb1, cb1))"

definition GetState :: "time_point \<Rightarrow> CircuitBreaker \<Rightarrow> State \<times> CircuitBreaker" where
  "GetState now cb = (case currentState now cb of (g, st, cb1) \<Rightarrow> (st, cb1))"

definition StateString :: "State \<Rightarrow> string" where
  "StateString st =
     (if st = STATE_CLOSED then ''close''
      else if st = STATE_HALF_OPEN then ''half open''
      else ''open'')"

definition GetName :: "CircuitBreaker \<Rightarrow> string" where
  "GetName cb = name (cb_settings cb)"

text \<open>The constructor; \<open>now\<close> is the clock reading it passes to \<^verbatim>\<open>toNewGeneration\<close>.\<close>

definition new_CircuitBreaker :: "Settings \<Rightarrow> time_point \<Rightarrow> CircuitBreaker" where
  "new_CircuitBreaker st now =
     (let s1 = (if max_requests st = 0 then st\<lparr>max_requests := 1\<rparr> else st);
          s2 = (if timeout s1 = 0 then s1\<lparr>timeout := seconds 60\<rparr> else s1);
          s3 = (if ready_to_trip s2 = None then s2\<lparr>ready_to_trip := Some defaultReadyToTrip\<rparr>
                else s2)
      in toNewGeneration now
           \<lparr>cb_settings = s3, cb_state = STATE_CLOSED, cb_generation = 0, cb_counts = Counts_init,
            cb_expiry = 0, cb_notified = []\<rparr>)"

text \<open>\<^verbatim>\<open>beforeRequest\<close> returns the result code and writes the generation through \<^verbatim>\<open>*gen\<close>.\<close>

definition beforeRequest :: "time_point \<Rightarrow> CircuitBreaker \<Rightarrow> int \<times> 64 word \<times> CircuitBreaker" where
  "beforeRequest now cb =
     (case currentState now cb of
        (gen, st, cb1) \<Rightarrow>
          if st = STATE_OPEN then (ResultCodeErrOpenState, gen, cb1)
          else if st = STATE_HALF_OPEN \<and> requests (cb_counts cb1) \<ge> max_requests (cb_settings cb1)
          then (ResultCodeErrTooManyRequests, gen, cb1)
          else (ResultCodeOK, gen, cb1\<lparr>cb_counts := Counts_onRequest (cb_counts cb1)\<rparr>))"

definition onSuccess :: "State \<Rightarrow> time_point \<Rightarrow> CircuitBreaker \<Rightarrow> CircuitBreaker" where
  "onSuccess st now cb =
     (case st of
        STATE_CLOSED \<Rightarrow> cb\<lparr>cb_counts := Counts_onSuccess (cb_counts cb)\<rparr>
      | STATE_HALF_OPEN \<Rightarrow>
          (let cb1 = cb\<lparr>cb_counts := Counts_onSuccess (cb_counts cb)\<rparr>
           in if consecutive_successes (cb_counts cb1) \<ge> max_requests (cb_settings cb1)
              then setState STATE_CLOSED now cb1 else cb1)
      | STATE_OPEN \<Rightarrow> cb)"

definition onFailure :: "State \<Rightarrow> time_point \<Rightarrow> CircuitBreaker \<Rightarrow> error + CircuitBreaker" where
  "onFailure st now cb =
     (case st of
        STATE_CLOSED \<Rightarrow>
          (let cb1 = cb\<lparr>cb_counts := Counts_onFailure (cb_counts cb)\<rparr>
           in case ready_to_trip (cb_settings cb1) of
                None \<Rightarrow> Inl bad_function_call
              | Some f \<Rightarrow> if f (cb_counts cb1) then Inr (setState STATE_OPEN now cb1) else Inr cb1)
      | STATE_HALF_OPEN \<Rightarrow> Inr (setState STATE_OPEN now cb)
      | STATE_OPEN \<Rightarrow> Inr cb)"

definition afterRequest :: "time_point \<Rightarrow> 64 word \<Rightarrow> bool \<Rightarrow> CircuitBreaker \<Rightarrow> error + CircuitBreaker" where
  "afterRequest now before_gen success cb =
     (case currentState now cb of
        (generation, st, cb1) \<Rightarrow>
          if generation \<noteq> before_gen then Inr cb1
          else if success then Inr (onSuccess st now cb1)
          else onFailure st now cb1)"

text \<open>
  \<^verbatim>\<open>Execute\<close>: \<open>dflt\<close> is \<^verbatim>\<open>Result_()\<close>; the wrapped operation \<open>req\<close> runs on the caller's
  world \<open>w\<close> and returns its tuple and the world it leaves; \<open>now1\<close> and \<open>now2\<close> are the clock
  readings of \<^verbatim>\<open>beforeRequest\<close> and \<^verbatim>\<open>afterRequest\<close>.
\<close>

definition Execute ::
  "'r \<Rightarrow> time_point \<Rightarrow> time_point \<Rightarrow> ('w \<Rightarrow> ('r \<times> int) \<times> 'w) \<Rightarrow> CircuitBreaker \<Rightarrow> 'w
     \<Rightarrow> error + (('r \<times> int) \<times> CircuitBreaker \<times> 'w)" where
  "Execute dflt now1 now2 req cb w =
     (case beforeRequest now1 cb of
        (err, generation, cb1) \<Rightarrow>
          if err \<noteq> ResultCodeOK then Inr ((dflt, err), cb1, w)
          else
            case req w of
              (ret, w1) \<Rightarrow>
                (case afterRequest now2 generation (snd ret = 0) cb1 of
                   Inl e \<Rightarrow> Inl e
                 | Inr cb2 \<Rightarrow> Inr (ret, cb2, w1)))"

subsection \<open>Sequences of calls\<close>

text \<open>A clock for examples: its reading number \<open>k\<close> (from 0) is \<open>k\<close> nanoseconds.\<close>

definition ticks :: "nat \<Rightarrow> time_point" where
  "ticks k = of_nat k"

text \<open>
  \<open>admissions clock n cb\<close>: \<open>n\<close> calls of \<^verbatim>\<open>beforeRequest\<close> one after the other with no
  other call in between, call number \<open>k\<close> (from 0) reading the clock as \<open>clock k\<close>.
\<close>

primrec admissions :: "(nat \<Rightarrow> time_point) \<Rightarrow> nat \<Rightarrow> CircuitBreaker \<Rightarrow> CircuitBreaker" where
  "admissions clock 0 cb = cb"
| "admissions clock (Suc n) cb = snd (snd (beforeRequest (clock n) (admissions clock n cb)))"

text \<open>
  \<^verbatim>\<open>testCircuitBreaker::fail\<close> of the test file: \<^verbatim>\<open>Execute\<close> of an operation that returns
  the code 100, which is turned into 0; a rejection code is returned as it is.
\<close>

definition fail :: "time_point \<Rightarrow> time_point \<Rightarrow> CircuitBreaker \<Rightarrow> error + (int \<times> CircuitBreaker)" where
  "fail now1 now2 cb =
     (case Execute (0::int) now1 now2 (\<lambda>w::unit. ((0, 100), w)) cb () of
        Inl e \<Rightarrow> Inl e
      | Inr (ret, cb1, w) \<Rightarrow> Inr (if snd ret = 100 then 0 else snd ret, cb1))"

text \<open>
  \<open>fails clock n cb\<close>: \<open>n\<close> calls of \<open>fail\<close> one after the other; call number \<open>k\<close> (from 0)
  reads the clock as \<open>clock (2 * k)\<close> on admission and as \<open>clock (2 * k + 1)\<close> on report.
\<close>

primrec fails :: "(nat \<Rightarrow> time_point) \<Rightarrow> nat \<Rightarrow> CircuitBreaker \<Rightarrow> error + CircuitBreaker" where
  "fails clock 0 cb = Inr cb"
| "fails clock (Suc n) cb =
     (case fails clock n cb of
        Inl e \<Rightarrow> Inl e
      | Inr cb1 \<Rightarrow>
          (case fail (clock (2 * n)) (clock (2 * n + 1)) cb1 of
             Inl e \<Rightarrow> Inl e
           | Inr (err, cb2) \<Rightarrow> Inr cb2))"

text \<open>
  A call of one of the three member functions, with the clock reading it makes, and a
  sequence of such calls run on a breaker. The mutex serialises the calls of all threads,
  so every concurrent execution is such a sequence.
\<close>

datatype call =
    Call_beforeRequest time_point
  | Call_afterRequest time_point "64 word" bool
  | Call_GetState time_point

fun step :: "call \<Rightarrow> CircuitBreaker \<Rightarrow> error + CircuitBreaker" where
  "step (Call_beforeRequest now) cb = Inr (snd (snd (beforeRequest now cb)))"
| "step (Call_afterRequest now before_gen success) cb = afterRequest now before_gen success cb"
| "step (Call_GetState now) cb = Inr (snd (GetState now cb))"

fun run :: "call list \<Rightarrow> CircuitBreaker \<Rightarrow> error + CircuitBreaker" where
  "run [] cb = Inr cb"
| "run (c # cs) cb = (case step c cb of Inl e \<Rightarrow> Inl e | Inr cb1 \<Rightarrow> run cs cb1)"

text \<open>
  \<open>paired pending cs cb\<close>: in the sequence \<open>cs\<close>, run on \<open>cb\<close>, every \<^verbatim>\<open>afterRequest\<close>
  reports a generation that an earlier \<^verbatim>\<open>beforeRequest\<close> handed out on admission (or that
  is in \<open>pending\<close> at the start) and that no other \<^verbatim>\<open>afterRequest\<close> has reported. This is
  how \<^verbatim>\<open>Execute\<close> calls the two: \<^verbatim>\<open>afterRequest\<close> once, after an admission, with its
  generation. An admission that is never reported stays pending.
\<close>

fun paired :: "64 word list \<Rightarrow> call list \<Rightarrow> CircuitBreaker \<Rightarrow> bool" where
  "paired pending [] cb = True"
| "paired pending (Call_beforeRequest now # cs) cb =
     (case beforeRequest now cb of
        (err, gen, cb1) \<Rightarrow> paired (if err = ResultCodeOK then gen # pending else pending) cs cb1)"
| "paired pending (Call_afterRequest now before_gen success # cs) cb =
     (before_gen \<in> set pending \<and>
      (case afterRequest now before_gen success cb of
         Inl e \<Rightarrow> True
       | Inr cb1 \<Rightarrow> paired (remove1 before_gen pending) cs cb1))"
| "paired pending (Call_GetState now # cs) cb = paired pending cs (snd (GetState now cb))"

text \<open>
  The invariant of \<^verbatim>\<open>Counts\<close> in the words of the specification. \<open>Counts_streaks\<close>: exactly
  one of the two consecutive counters is non-zero, or both are zero and no outcome has been
  recorded (both totals are zero). \<open>Counts_invariant\<close>: the two totals together are at most
  \<open>requests\<close>, and \<open>Counts_streaks\<close>.
\<close>

definition Counts_streaks :: "Counts \<Rightarrow> bool" where
  "Counts_streaks c \<longleftrightarrow>
     (consecutive_successes c \<noteq> 0) \<noteq> (consecutive_failures c \<noteq> 0) \<or>
     (consecutive_successes c = 0 \<and> consecutive_failures c = 0 \<and>
      total_successes c = 0 \<and> total_failures c = 0)"

definition Counts_invariant :: "Counts \<Rightarrow> bool" where
  "Counts_invariant c \<longleftrightarrow>
     unat (total_successes c) + unat (total_failures c) \<le> unat (requests c) \<and>
     Counts_streaks c"

text \<open>
  The wrap-arounds of the counters, call by call. \<open>requests_fit c cb\<close>: the call \<open>c\<close> on
  \<open>cb\<close> does not wrap \<open>requests\<close> (an admission does not take it from \<open>2 ^ 32 - 1\<close> to 0).
  \<open>totals_fit c cb\<close>: the call does not wrap \<open>total_successes\<close> or \<open>total_failures\<close> (a
  tallied outcome does not take its total from \<open>2 ^ 32 - 1\<close> to 0). \<open>generation_fits c cb\<close>:
  the call does not wrap the generation, which it increments at most twice (the generation
  after the call is not below the one before it). \<open>always P cs cb\<close>: \<open>P\<close> holds of every
  call of the sequence \<open>cs\<close>, run on \<open>cb\<close>.
\<close>

fun requests_fit :: "call \<Rightarrow> CircuitBreaker \<Rightarrow> bool" where
  "requests_fit (Call_beforeRequest now) cb =
     (case beforeRequest now cb of
        (err, gen, cb1) \<Rightarrow> err = ResultCodeOK \<longrightarrow> requests (cb_counts cb1) \<noteq> 0)"
| "requests_fit (Call_afterRequest now before_gen success) cb = True"
| "requests_fit (Call_GetState now) cb = True"

fun totals_fit :: "call \<Rightarrow> CircuitBreaker \<Rightarrow> bool" where
  "totals_fit (Call_beforeRequest now) cb = True"
| "totals_fit (Call_afterRequest now before_gen success) cb =
     (case currentState now cb of
        (generation, st, cb1) \<Rightarrow>
          if generation \<noteq> before_gen then True
          else if success then st = STATE_OPEN \<or> total_successes (cb_counts cb1) + 1 \<noteq> 0
          else st \<noteq> STATE_CLOSED \<or> total_failures (cb_counts cb1) + 1 \<noteq> 0)"
| "totals_fit (Call_GetState now) cb = True"

definition generation_fits :: "call \<Rightarrow> CircuitBreaker \<Rightarrow> bool" where
  "generation_fits c cb =
     (case step c cb of
        Inl e \<Rightarrow> True
      | Inr cb1 \<Rightarrow> unat (cb_generation cb) \<le> unat (cb_generation cb1))"

fun always :: "(call \<Rightarrow> CircuitBreaker \<Rightarrow> bool) \<Rightarrow> call list \<Rightarrow> CircuitBreaker \<Rightarrow> bool" where
  "always P [] cb = True"
| "always P (c # cs) cb =
     (P c cb \<and> (case step c cb of Inl e \<Rightarrow> True | Inr cb1 \<Rightarrow> always P cs cb1))"

text \<open>
  The invariants carried along a sequence of calls. \<open>streak_inv\<close>, for any sequence: the
  two consecutive counters are not both non-zero. \<open>streaks_inv\<close>, while no total wraps:
  each consecutive counter is at most its total, and \<open>Counts_streaks\<close>. \<open>paired_inv\<close>,
  for a sequence that reports admissions, with \<open>pending\<close> the generations handed out on
  admission and not yet reported: no pending generation is later than the current one, and
  the outcomes tallied and the pending admissions of the current generation together are
  at most \<open>requests\<close>.
\<close>

definition streak_inv :: "CircuitBreaker \<Rightarrow> bool" where
  "streak_inv cb \<longleftrightarrow>
     ready_to_trip (cb_settings cb) \<noteq> None \<and>
     (consecutive_successes (cb_counts cb) = 0 \<or> consecutive_failures (cb_counts cb) = 0)"

definition streaks_inv :: "CircuitBreaker \<Rightarrow> bool" where
  "streaks_inv cb \<longleftrightarrow>
     ready_to_trip (cb_settings cb) \<noteq> None \<and>
     unat (consecutive_successes (cb_counts cb)) \<le> unat (total_successes (cb_counts cb)) \<and>
     unat (consecutive_failures (cb_counts cb)) \<le> unat (total_failures (cb_counts cb)) \<and>
     Counts_streaks (cb_counts cb)"

definition paired_inv :: "64 word list \<Rightarrow> CircuitBreaker \<Rightarrow> bool" where
  "paired_inv pending cb \<longleftrightarrow>
     streaks_inv cb \<and>
     (\<forall>t \<in> set pending. unat t \<le> unat (cb_generation cb)) \<and>
     unat (total_successes (cb_counts cb)) + unat (total_failures (cb_counts cb)) +
       count_list pending (cb_generation cb) \<le> unat (requests (cb_counts cb))"

section \<open>Basic facts\<close>

lemmas cb_defs =
  new_CircuitBreaker_def Settings_init_def Counts_init_def seconds_def toNewGeneration_def
  setState_def currentState_def GetState_def beforeRequest_def afterRequest_def onSuccess_def
  onFailure_def Counts_onRequest_def Counts_onSuccess_def Counts_onFailure_def
  Counts_clear_def defaultReadyToTrip_def ResultCodeOK_def ResultCodeErrOpenState_def
  ResultCodeErrTooManyRequests_def Let_def

lemma Counts_clear_eq: "Counts_clear c = Counts_init"
  by (simp add: Counts_clear_def Counts_init_def)

text \<open>What a new generation and a change of state write, field by field.\<close>

lemma toNewGeneration_eq:
  "toNewGeneration now cb =
     cb\<lparr>cb_generation := cb_generation cb + 1, cb_counts := Counts_init,
        cb_expiry :=
          (case cb_state cb of
             STATE_CLOSED \<Rightarrow>
               if interval (cb_settings cb) = 0 then 0 else now + interval (cb_settings cb)
           | STATE_OPEN \<Rightarrow> now + timeout (cb_settings cb)
           | STATE_HALF_OPEN \<Rightarrow> 0)\<rparr>"
  by (simp add: toNewGeneration_def Counts_clear_eq Let_def split: State.split)

lemma setState_eq:
  "setState st now cb =
     (if cb_state cb = st then cb
      else cb\<lparr>cb_state := st, cb_generation := cb_generation cb + 1, cb_counts := Counts_init,
              cb_expiry :=
                (case st of
                   STATE_CLOSED \<Rightarrow>
                     if interval (cb_settings cb) = 0 then 0 else now + interval (cb_settings cb)
                 | STATE_OPEN \<Rightarrow> now + timeout (cb_settings cb)
                 | STATE_HALF_OPEN \<Rightarrow> 0),
              cb_notified :=
                (case on_state_change (cb_settings cb) of
                   None \<Rightarrow> cb_notified cb
                 | Some f \<Rightarrow> cb_notified cb @ [(name (cb_settings cb), cb_state cb, st)])\<rparr>)"
  by (simp add: setState_def toNewGeneration_eq Let_def split: State.split option.split)

lemma currentState_result:
  "currentState now cb = (g, st, cb1) \<Longrightarrow> g = cb_generation cb1 \<and> st = cb_state cb1"
  by (auto simp: currentState_def Let_def)

lemma currentState_closed_no_expiry:
  "cb_state cb = STATE_CLOSED \<Longrightarrow> cb_expiry cb = 0 \<or> now \<le>s cb_expiry cb \<Longrightarrow>
   currentState now cb = (cb_generation cb, STATE_CLOSED, cb)"
  by (auto simp: currentState_def signed.not_less [symmetric])

lemma currentState_half_open:
  "cb_state cb = STATE_HALF_OPEN \<Longrightarrow>
   currentState now cb = (cb_generation cb, STATE_HALF_OPEN, cb)"
  by (auto simp: currentState_def)

text \<open>No member function writes \<^verbatim>\<open>settings_\<close> after the constructor.\<close>

lemma settings_toNewGeneration [simp]: "cb_settings (toNewGeneration now cb) = cb_settings cb"
  by (simp add: toNewGeneration_eq)

lemma settings_setState [simp]: "cb_settings (setState st now cb) = cb_settings cb"
  by (simp add: setState_eq)

lemma settings_currentState:
  "currentState now cb = (g, st, cb1) \<Longrightarrow> cb_settings cb1 = cb_settings cb"
  by (auto simp: currentState_def Let_def split: State.splits if_splits)

lemma settings_beforeRequest:
  "beforeRequest now cb = (err, g, cb1) \<Longrightarrow> cb_settings cb1 = cb_settings cb"
  by (cases "currentState now cb")
     (auto simp: beforeRequest_def dest: settings_currentState split: if_splits)

lemma settings_onSuccess [simp]: "cb_settings (onSuccess st now cb) = cb_settings cb"
  by (simp add: onSuccess_def Let_def split: State.split)

lemma settings_onFailure:
  "onFailure st now cb = Inr cb1 \<Longrightarrow> cb_settings cb1 = cb_settings cb"
  by (auto simp: onFailure_def Let_def split: State.splits option.splits if_splits)

lemma settings_afterRequest:
  "afterRequest now g success cb = Inr cb1 \<Longrightarrow> cb_settings cb1 = cb_settings cb"
  by (cases "currentState now cb")
     (auto simp: afterRequest_def dest!: settings_currentState settings_onFailure
       split: if_splits)

text \<open>
  The constructor installs a trip predicate, so \<^verbatim>\<open>ready_to_trip\<close> is never empty when it
  is called, and \<^verbatim>\<open>std::bad_function_call\<close> is never thrown.
\<close>

lemma ready_to_trip_new_CircuitBreaker:
  "ready_to_trip (cb_settings (new_CircuitBreaker st now)) \<noteq> None"
  by (simp add: new_CircuitBreaker_def Let_def)

lemma onFailure_no_error:
  "ready_to_trip (cb_settings cb) \<noteq> None \<Longrightarrow> \<exists>cb1. onFailure st now cb = Inr cb1"
  by (auto simp: onFailure_def Let_def split: State.split)

lemma afterRequest_no_error:
  "ready_to_trip (cb_settings cb) \<noteq> None \<Longrightarrow> \<exists>cb1. afterRequest now g success cb = Inr cb1"
  by (cases "currentState now cb")
     (auto simp: afterRequest_def dest!: settings_currentState intro!: onFailure_no_error)

lemma beforeRequest_codes:
  "fst (beforeRequest now cb) \<in>
     {ResultCodeOK, ResultCodeErrOpenState, ResultCodeErrTooManyRequests}"
  by (cases "currentState now cb") (simp add: beforeRequest_def)

section \<open>The time-driven transitions\<close>

text \<open>
  Claim C4. \<^verbatim>\<open>currentState(now)\<close>: when the stored state is Closed and the expiry is not
  the zero timestamp and is earlier than \<open>now\<close>, a new generation begins (the generation is
  incremented, the counts are cleared), the state stays Closed and the expiry becomes
  \<open>now + interval\<close>, or the zero timestamp when \<open>interval\<close> is 0. When the stored state is
  Open and the expiry is earlier than \<open>now\<close>, the state becomes Half-Open and the expiry the
  zero timestamp (a new generation begins and the hook, if any, is called). When the stored
  state is Half-Open nothing changes.
\<close>

theorem currentState_transitions:
  "(cb_state cb = STATE_CLOSED \<and> cb_expiry cb \<noteq> 0 \<and> cb_expiry cb <s now \<longrightarrow>
      currentState now cb =
        (cb_generation cb + 1, STATE_CLOSED,
         cb\<lparr>cb_generation := cb_generation cb + 1, cb_counts := Counts_init,
            cb_expiry := (if interval (cb_settings cb) = 0 then 0
                          else now + interval (cb_settings cb))\<rparr>)) \<and>
   (cb_state cb = STATE_OPEN \<and> cb_expiry cb <s now \<longrightarrow>
      currentState now cb =
        (cb_generation cb + 1, STATE_HALF_OPEN,
         cb\<lparr>cb_state := STATE_HALF_OPEN, cb_generation := cb_generation cb + 1,
            cb_counts := Counts_init, cb_expiry := 0,
            cb_notified :=
              (case on_state_change (cb_settings cb) of
                 None \<Rightarrow> cb_notified cb
               | Some f \<Rightarrow>
                   cb_notified cb @ [(name (cb_settings cb), STATE_OPEN, STATE_HALF_OPEN)])\<rparr>)) \<and>
   (cb_state cb = STATE_HALF_OPEN \<longrightarrow>
      currentState now cb = (cb_generation cb, STATE_HALF_OPEN, cb))"
  by (auto simp: currentState_def toNewGeneration_eq setState_eq split: option.split)

theorem currentState_transitions_witness:
  "currentState (seconds 31) (new_CircuitBreaker (Settings_init\<lparr>interval := seconds 30\<rparr>) 0) =
     (2, STATE_CLOSED,
      (new_CircuitBreaker (Settings_init\<lparr>interval := seconds 30\<rparr>) 0)
        \<lparr>cb_generation := 2, cb_expiry := seconds 61\<rparr>) \<and>
   fst (snd (currentState 61
     ((new_CircuitBreaker Settings_init 0)\<lparr>cb_state := STATE_OPEN, cb_expiry := 60\<rparr>))) =
     STATE_HALF_OPEN \<and>
   currentState 61 ((new_CircuitBreaker Settings_init 0)\<lparr>cb_state := STATE_HALF_OPEN\<rparr>) =
     (1, STATE_HALF_OPEN, (new_CircuitBreaker Settings_init 0)\<lparr>cb_state := STATE_HALF_OPEN\<rparr>)"
  using currentState_transitions
    [of "new_CircuitBreaker (Settings_init\<lparr>interval := seconds 30\<rparr>) 0" "seconds 31"]
    currentState_transitions
    [of "(new_CircuitBreaker Settings_init 0)\<lparr>cb_state := STATE_OPEN, cb_expiry := 60\<rparr>" 61]
    currentState_transitions
    [of "(new_CircuitBreaker Settings_init 0)\<lparr>cb_state := STATE_HALF_OPEN\<rparr>" 61]
  by (simp add: new_CircuitBreaker_def Settings_init_def Counts_init_def seconds_def
      toNewGeneration_eq Let_def)

section \<open>Reporting an outcome\<close>

text \<open>
  Claim C2. \<^verbatim>\<open>afterRequest(token, success)\<close>: when the generation that \<^verbatim>\<open>currentState(now)\<close>
  returns differs from the token, the call is not an error and leaves the breaker (counts,
  state, generation, expiry) exactly as \<^verbatim>\<open>currentState(now)\<close> left it: the stale outcome is
  dropped.
\<close>

theorem afterRequest_stale:
  "fst (currentState now cb) \<noteq> before_gen \<Longrightarrow>
   afterRequest now before_gen success cb = Inr (snd (snd (currentState now cb)))"
  by (cases "currentState now cb") (simp add: afterRequest_def)

theorem afterRequest_stale_witness:
  "fst (currentState (seconds 31)
     (new_CircuitBreaker (Settings_init\<lparr>interval := seconds 30\<rparr>) 0)) \<noteq> 1 \<and>
   afterRequest (seconds 31) 1 False
     (new_CircuitBreaker (Settings_init\<lparr>interval := seconds 30\<rparr>) 0) =
     Inr (snd (snd (currentState (seconds 31)
       (new_CircuitBreaker (Settings_init\<lparr>interval := seconds 30\<rparr>) 0))))"
proof -
  have h: "fst (currentState (seconds 31)
             (new_CircuitBreaker (Settings_init\<lparr>interval := seconds 30\<rparr>) 0)) \<noteq> 1"
    by (simp add: cb_defs)
  from afterRequest_stale [OF h] h show ?thesis by simp
qed

text \<open>
  Claim C5. An outcome reported in Half-Open with the current generation. A success is
  tallied with \<^verbatim>\<open>counts.onSuccess()\<close>; if \<open>consecutive_successes\<close> is then at least
  \<open>max_requests\<close>, the breaker becomes Closed in a new generation with cleared counts. A
  failure is not tallied: the breaker becomes Open at once, in a new generation with
  cleared counts and the expiry \<open>now + timeout\<close>.
\<close>

theorem half_open_outcome:
  assumes "currentState now cb = (before_gen, STATE_HALF_OPEN, cb1)"
  shows "afterRequest now before_gen True cb =
           Inr (if consecutive_successes (Counts_onSuccess (cb_counts cb1))
                     \<ge> max_requests (cb_settings cb1)
                then cb1\<lparr>cb_state := STATE_CLOSED, cb_generation := cb_generation cb1 + 1,
                        cb_counts := Counts_init,
                        cb_expiry := (if interval (cb_settings cb1) = 0 then 0
                                      else now + interval (cb_settings cb1)),
                        cb_notified :=
                          (case on_state_change (cb_settings cb1) of
                             None \<Rightarrow> cb_notified cb1
                           | Some f \<Rightarrow> cb_notified cb1 @
                               [(name (cb_settings cb1), STATE_HALF_OPEN, STATE_CLOSED)])\<rparr>
                else cb1\<lparr>cb_counts := Counts_onSuccess (cb_counts cb1)\<rparr>) \<and>
         afterRequest now before_gen False cb =
           Inr (cb1\<lparr>cb_state := STATE_OPEN, cb_generation := cb_generation cb1 + 1,
                    cb_counts := Counts_init, cb_expiry := now + timeout (cb_settings cb1),
                    cb_notified :=
                      (case on_state_change (cb_settings cb1) of
                         None \<Rightarrow> cb_notified cb1
                       | Some f \<Rightarrow> cb_notified cb1 @
                           [(name (cb_settings cb1), STATE_HALF_OPEN, STATE_OPEN)])\<rparr>)"
proof -
  from assms have st: "cb_state cb1 = STATE_HALF_OPEN"
    by (auto simp: currentState_def Let_def)
  show ?thesis
    using assms st
    by (auto simp: afterRequest_def onSuccess_def onFailure_def setState_eq Let_def
        split: option.split)
qed

theorem half_open_outcome_witness:
  "currentState 61 ((new_CircuitBreaker Settings_init 0)\<lparr>cb_state := STATE_HALF_OPEN\<rparr>) =
     (1, STATE_HALF_OPEN, (new_CircuitBreaker Settings_init 0)\<lparr>cb_state := STATE_HALF_OPEN\<rparr>) \<and>
   afterRequest 61 1 True ((new_CircuitBreaker Settings_init 0)\<lparr>cb_state := STATE_HALF_OPEN\<rparr>) =
     Inr ((new_CircuitBreaker Settings_init 0)\<lparr>cb_generation := 2\<rparr>) \<and>
   afterRequest 61 1 False ((new_CircuitBreaker Settings_init 0)\<lparr>cb_state := STATE_HALF_OPEN\<rparr>) =
     Inr ((new_CircuitBreaker Settings_init 0)
            \<lparr>cb_state := STATE_OPEN, cb_generation := 2, cb_expiry := 61 + seconds 60\<rparr>)"
proof -
  have h: "currentState 61 ((new_CircuitBreaker Settings_init 0)\<lparr>cb_state := STATE_HALF_OPEN\<rparr>) =
     (1, STATE_HALF_OPEN, (new_CircuitBreaker Settings_init 0)\<lparr>cb_state := STATE_HALF_OPEN\<rparr>)"
    by (simp add: cb_defs)
  from half_open_outcome [OF h] h show ?thesis
    by (simp add: new_CircuitBreaker_def Settings_init_def Counts_init_def seconds_def
      toNewGeneration_eq Let_def Counts_onSuccess_def)
qed

section \<open>Construction\<close>

text \<open>
  Claim C8. A breaker constructed from default settings has \<open>max_requests = 1\<close>,
  \<open>interval = 0\<close>, \<open>timeout\<close> = 60 seconds, the default trip predicate, no notification
  hook, the state Closed, all counters zero and the zero timestamp as expiry. For any
  settings the constructor replaces \<open>max_requests = 0\<close> by 1, \<open>timeout = 0\<close> by 60 seconds
  and an empty \<open>ready_to_trip\<close> by the default predicate, and leaves the breaker Closed in
  generation 1 with zero counts.
\<close>

theorem new_CircuitBreaker_defaults:
  "new_CircuitBreaker Settings_init now =
     \<lparr>cb_settings =
        \<lparr>name = [], max_requests = 1, interval = 0, timeout = seconds 60,
         ready_to_trip = Some defaultReadyToTrip, on_state_change = None\<rparr>,
      cb_state = STATE_CLOSED, cb_generation = 1, cb_counts = Counts_init, cb_expiry = 0,
      cb_notified = []\<rparr> \<and>
   cb_settings (new_CircuitBreaker st now) =
     st\<lparr>max_requests := (if max_requests st = 0 then 1 else max_requests st),
        timeout := (if timeout st = 0 then seconds 60 else timeout st),
        ready_to_trip :=
          Some (case ready_to_trip st of None \<Rightarrow> defaultReadyToTrip | Some f \<Rightarrow> f)\<rparr> \<and>
   cb_state (new_CircuitBreaker st now) = STATE_CLOSED \<and>
   cb_generation (new_CircuitBreaker st now) = 1 \<and>
   cb_counts (new_CircuitBreaker st now) = Counts_init \<and>
   cb_expiry (new_CircuitBreaker st now) = (if interval st = 0 then 0 else now + interval st) \<and>
   cb_notified (new_CircuitBreaker st now) = []"
  by (auto simp: new_CircuitBreaker_def toNewGeneration_eq Settings_init_def seconds_def Let_def
      split: option.split)

theorem new_CircuitBreaker_defaults_witness:
  "cb_settings (new_CircuitBreaker
      \<lparr>name = ''cb'', max_requests = 0, interval = seconds 30, timeout = 0,
       ready_to_trip = None, on_state_change = None\<rparr> 7) =
     \<lparr>name = ''cb'', max_requests = 1, interval = seconds 30, timeout = seconds 60,
      ready_to_trip = Some defaultReadyToTrip, on_state_change = None\<rparr> \<and>
   cb_expiry (new_CircuitBreaker
      \<lparr>name = ''cb'', max_requests = 0, interval = seconds 30, timeout = 0,
       ready_to_trip = None, on_state_change = None\<rparr> 7) = 7 + seconds 30"
  using new_CircuitBreaker_defaults
    [where now = 7 and st = "\<lparr>name = ''cb'', max_requests = 0, interval = seconds 30,
       timeout = 0, ready_to_trip = None, on_state_change = None\<rparr>"]
  by (simp add: seconds_def)

section \<open>Execute\<close>

text \<open>
  Claim C7. \<^verbatim>\<open>Execute\<close> of a wrapped operation \<open>req\<close>. When \<^verbatim>\<open>beforeRequest\<close> rejects,
  \<^verbatim>\<open>Execute\<close> returns the default value of the result type with the rejection code, one of
  the two reserved codes, and the operation is not invoked: the world is unchanged. When
  \<^verbatim>\<open>beforeRequest\<close> admits, the operation is invoked once, on the world as it was,
  \<^verbatim>\<open>afterRequest\<close> is told success exactly when the operation's code is 0, and \<^verbatim>\<open>Execute\<close>
  returns the operation's own value and code. The trip predicate is present, as it is in
  every constructed breaker.
\<close>

theorem Execute_contract:
  assumes "ready_to_trip (cb_settings cb) \<noteq> None"
    and "beforeRequest now1 cb = (err, gen, cb1)"
  shows "(err \<noteq> ResultCodeOK \<longrightarrow>
            (err = ResultCodeErrOpenState \<or> err = ResultCodeErrTooManyRequests) \<and>
            Execute dflt now1 now2 req cb w = Inr ((dflt, err), cb1, w)) \<and>
         (err = ResultCodeOK \<longrightarrow>
            (\<exists>cb2. afterRequest now2 gen (snd (fst (req w)) = 0) cb1 = Inr cb2 \<and>
                   Execute dflt now1 now2 req cb w = Inr (fst (req w), cb2, snd (req w))))"
proof -
  have "ready_to_trip (cb_settings cb1) \<noteq> None"
    using assms settings_beforeRequest by simp
  then obtain cb2 where a: "afterRequest now2 gen (snd (fst (req w)) = 0) cb1 = Inr cb2"
    using afterRequest_no_error by blast
  have c: "err \<in> {ResultCodeOK, ResultCodeErrOpenState, ResultCodeErrTooManyRequests}"
    using beforeRequest_codes [of now1 cb] assms(2) by simp
  show ?thesis
    using assms(2) a c by (auto simp: Execute_def split: prod.split)
qed

theorem Execute_contract_witness:
  "Execute (0::int) 1 2 (\<lambda>n::nat. ((42, 100), Suc n)) (new_CircuitBreaker Settings_init 0) 0 =
     Inr ((42, 100),
          (new_CircuitBreaker Settings_init 0)
            \<lparr>cb_counts := \<lparr>requests = 1, total_successes = 0, total_failures = 1,
                            consecutive_successes = 0, consecutive_failures = 1\<rparr>\<rparr>,
          Suc 0) \<and>
   Execute (0::int) 1 2 (\<lambda>n::nat. ((42, 0), Suc n))
       ((new_CircuitBreaker Settings_init 0)\<lparr>cb_state := STATE_OPEN, cb_expiry := 60\<rparr>) 0 =
     Inr ((0, ResultCodeErrOpenState),
          (new_CircuitBreaker Settings_init 0)\<lparr>cb_state := STATE_OPEN, cb_expiry := 60\<rparr>, 0)"
proof -
  let ?cb = "new_CircuitBreaker Settings_init 0"
  let ?op = "(new_CircuitBreaker Settings_init 0)\<lparr>cb_state := STATE_OPEN, cb_expiry := 60\<rparr>"
  have r: "ready_to_trip (cb_settings ?cb) \<noteq> None" "ready_to_trip (cb_settings ?op) \<noteq> None"
    by (simp_all add: cb_defs)
  have b1: "beforeRequest 1 ?cb =
      (ResultCodeOK, 1, ?cb\<lparr>cb_counts := Counts_onRequest (cb_counts ?cb)\<rparr>)"
    by (simp add: cb_defs)
  have b2: "beforeRequest 1 ?op = (ResultCodeErrOpenState, 1, ?op)"
    by (simp add: cb_defs word_sless_alt)
  from Execute_contract [OF r(1) b1, of "0::int" 2 "\<lambda>n::nat. ((42, 100), Suc n)" 0]
    Execute_contract [OF r(2) b2, of "0::int" 2 "\<lambda>n::nat. ((42, 0), Suc n)" 0]
  show ?thesis
    by (auto simp: cb_defs)
qed

section \<open>Admission\<close>

text \<open>Successive admissions while Closed with no reset pending, and while Half-Open.\<close>

lemma admissions_closed:
  "cb_state cb = STATE_CLOSED \<Longrightarrow> cb_expiry cb = 0 \<Longrightarrow>
   admissions clock n cb =
     cb\<lparr>cb_counts := (cb_counts cb)\<lparr>requests := requests (cb_counts cb) + of_nat n\<rparr>\<rparr>"
  by (induction n)
     (simp_all add: beforeRequest_def currentState_closed_no_expiry Counts_onRequest_def add.assoc)

lemma unat_plus_of_nat:
  "unat (r::32 word) + n < 2 ^ 32 \<Longrightarrow> unat (r + of_nat n) = unat r + n"
  by (simp add: unat_word_ariths unat_of_nat)

lemma admissions_half_open:
  "cb_state cb = STATE_HALF_OPEN \<Longrightarrow>
   unat (requests (cb_counts cb)) + n \<le> unat (max_requests (cb_settings cb)) \<Longrightarrow>
   admissions clock n cb =
     cb\<lparr>cb_counts := (cb_counts cb)\<lparr>requests := requests (cb_counts cb) + of_nat n\<rparr>\<rparr>"
proof (induction n)
  case 0
  then show ?case by simp
next
  case (Suc n)
  have m: "unat (max_requests (cb_settings cb)) < 2 ^ 32"
    using unsigned_less [of "max_requests (cb_settings cb)"] by simp
  with Suc.prems have "unat (requests (cb_counts cb) + of_nat n) = unat (requests (cb_counts cb)) + n"
    by (intro unat_plus_of_nat) simp
  with Suc.prems have "\<not> max_requests (cb_settings cb) \<le> requests (cb_counts cb) + of_nat n"
    by (simp add: word_le_nat_alt)
  with Suc show ?case
    by (simp add: beforeRequest_def currentState_half_open Counts_onRequest_def add.assoc)
qed

text \<open>
  Claim C1. \<^verbatim>\<open>beforeRequest\<close>, with \<open>(gen, st, cb1)\<close> what \<^verbatim>\<open>currentState(now)\<close> returns and
  leaves. If the state is Open, the result is \<^verbatim>\<open>ErrOpenState\<close> and nothing more is
  written. If the state is Half-Open and \<open>requests \<ge> max_requests\<close>, the result is
  \<^verbatim>\<open>ErrTooManyRequests\<close> and nothing more is written. Otherwise \<open>requests\<close> is incremented
  by one and the call is admitted. In each case the generation handed back is the current
  one. So, from a Half-Open breaker with \<open>requests = 0\<close> (as a new generation leaves it),
  \<open>max_requests\<close> successive admissions succeed, all in the same generation, and the next
  attempt is rejected with \<^verbatim>\<open>ErrTooManyRequests\<close> and writes nothing.
\<close>

theorem beforeRequest_admission:
  "(currentState now cb = (gen, st, cb1) \<longrightarrow>
      (st = STATE_OPEN \<longrightarrow> beforeRequest now cb = (ResultCodeErrOpenState, gen, cb1)) \<and>
      (st = STATE_HALF_OPEN \<and> requests (cb_counts cb1) \<ge> max_requests (cb_settings cb1) \<longrightarrow>
         beforeRequest now cb = (ResultCodeErrTooManyRequests, gen, cb1)) \<and>
      (st \<noteq> STATE_OPEN \<and>
       \<not> (st = STATE_HALF_OPEN \<and> requests (cb_counts cb1) \<ge> max_requests (cb_settings cb1)) \<longrightarrow>
         beforeRequest now cb =
           (ResultCodeOK, gen,
            cb1\<lparr>cb_counts := (cb_counts cb1)\<lparr>requests := requests (cb_counts cb1) + 1\<rparr>\<rparr>))) \<and>
   (cb_state cb = STATE_HALF_OPEN \<and> requests (cb_counts cb) = 0 \<longrightarrow>
      (\<forall>k < unat (max_requests (cb_settings cb)).
         beforeRequest (clock k) (admissions clock k cb) =
           (ResultCodeOK, cb_generation cb, admissions clock (Suc k) cb) \<and>
         requests (cb_counts (admissions clock (Suc k) cb)) = of_nat (Suc k)) \<and>
      beforeRequest (clock (unat (max_requests (cb_settings cb))))
          (admissions clock (unat (max_requests (cb_settings cb))) cb) =
        (ResultCodeErrTooManyRequests, cb_generation cb,
         admissions clock (unat (max_requests (cb_settings cb))) cb))"
proof -
  have first: "currentState now cb = (gen, st, cb1) \<longrightarrow>
      (st = STATE_OPEN \<longrightarrow> beforeRequest now cb = (ResultCodeErrOpenState, gen, cb1)) \<and>
      (st = STATE_HALF_OPEN \<and> requests (cb_counts cb1) \<ge> max_requests (cb_settings cb1) \<longrightarrow>
         beforeRequest now cb = (ResultCodeErrTooManyRequests, gen, cb1)) \<and>
      (st \<noteq> STATE_OPEN \<and>
       \<not> (st = STATE_HALF_OPEN \<and> requests (cb_counts cb1) \<ge> max_requests (cb_settings cb1)) \<longrightarrow>
         beforeRequest now cb =
           (ResultCodeOK, gen,
            cb1\<lparr>cb_counts := (cb_counts cb1)\<lparr>requests := requests (cb_counts cb1) + 1\<rparr>\<rparr>))"
    by (auto simp: beforeRequest_def Counts_onRequest_def)
  have second: "(\<forall>k < unat (max_requests (cb_settings cb)).
         beforeRequest (clock k) (admissions clock k cb) =
           (ResultCodeOK, cb_generation cb, admissions clock (Suc k) cb) \<and>
         requests (cb_counts (admissions clock (Suc k) cb)) = of_nat (Suc k)) \<and>
      beforeRequest (clock (unat (max_requests (cb_settings cb))))
          (admissions clock (unat (max_requests (cb_settings cb))) cb) =
        (ResultCodeErrTooManyRequests, cb_generation cb,
         admissions clock (unat (max_requests (cb_settings cb))) cb)"
    if h: "cb_state cb = STATE_HALF_OPEN" and z: "requests (cb_counts cb) = 0"
  proof -
    let ?m = "max_requests (cb_settings cb)"
    have a: "admissions clock k cb = cb\<lparr>cb_counts := (cb_counts cb)\<lparr>requests := of_nat k\<rparr>\<rparr>"
      if "k \<le> unat ?m" for k
      using admissions_half_open [OF h, of k clock] that z by simp
    have lt: "\<not> ?m \<le> of_nat k" if "k < unat ?m" for k
    proof -
      have "unat ?m < 2 ^ 32" using unsigned_less [of ?m] by simp
      with that have "unat (of_nat k :: 32 word) = k" by (simp add: unat_of_nat)
      with that show ?thesis by (simp add: word_le_nat_alt)
    qed
    have adm: "beforeRequest (clock k) (admissions clock k cb) =
           (ResultCodeOK, cb_generation cb, admissions clock (Suc k) cb) \<and>
         requests (cb_counts (admissions clock (Suc k) cb)) = of_nat (Suc k)"
      if "k < unat ?m" for k
    proof -
      from that have k: "k \<le> unat ?m" "Suc k \<le> unat ?m" by simp_all
      show ?thesis
        using lt [OF that] h
        by (simp add: a [OF k(1)] a [OF k(2)] beforeRequest_def currentState_half_open
            Counts_onRequest_def)
    qed
    have rej: "beforeRequest (clock (unat ?m)) (admissions clock (unat ?m) cb) =
        (ResultCodeErrTooManyRequests, cb_generation cb, admissions clock (unat ?m) cb)"
      using h by (simp add: a beforeRequest_def currentState_half_open)
    from adm rej show ?thesis by blast
  qed
  from first second show ?thesis by blast
qed

theorem beforeRequest_admission_witness:
  "beforeRequest 5
     ((new_CircuitBreaker (Settings_init\<lparr>max_requests := 3\<rparr>) 0)\<lparr>cb_state := STATE_HALF_OPEN\<rparr>) =
     (ResultCodeOK, 1,
      (new_CircuitBreaker (Settings_init\<lparr>max_requests := 3\<rparr>) 0)
        \<lparr>cb_state := STATE_HALF_OPEN,
         cb_counts := Counts_init\<lparr>requests := 1\<rparr>\<rparr>) \<and>
   fst (beforeRequest (ticks 2) (admissions ticks 2
     ((new_CircuitBreaker (Settings_init\<lparr>max_requests := 3\<rparr>) 0)\<lparr>cb_state := STATE_HALF_OPEN\<rparr>))) =
     ResultCodeOK \<and>
   fst (beforeRequest (ticks 3) (admissions ticks 3
     ((new_CircuitBreaker (Settings_init\<lparr>max_requests := 3\<rparr>) 0)\<lparr>cb_state := STATE_HALF_OPEN\<rparr>))) =
     ResultCodeErrTooManyRequests"
proof -
  let ?cb = "(new_CircuitBreaker (Settings_init\<lparr>max_requests := 3\<rparr>) 0)\<lparr>cb_state := STATE_HALF_OPEN\<rparr>"
  have c: "currentState 5 ?cb = (1, STATE_HALF_OPEN, ?cb)"
    by (simp add: cb_defs)
  have h: "cb_state ?cb = STATE_HALF_OPEN \<and> requests (cb_counts ?cb) = 0"
    by (simp add: cb_defs)
  have m: "unat (max_requests (cb_settings ?cb)) = 3" "(2::nat) < 3"
    by (simp_all add: cb_defs)
  note t = beforeRequest_admission [of 5 ?cb 1 STATE_HALF_OPEN ?cb ticks]
  from t c have "beforeRequest 5 ?cb =
     (ResultCodeOK, 1, ?cb\<lparr>cb_counts := (cb_counts ?cb)\<lparr>requests := requests (cb_counts ?cb) + 1\<rparr>\<rparr>)"
    by (simp add: cb_defs)
  moreover from t h m have "fst (beforeRequest (ticks 2) (admissions ticks 2 ?cb)) = ResultCodeOK"
    by (metis fst_conv)
  moreover from t h m have "fst (beforeRequest (ticks 3) (admissions ticks 3 ?cb)) =
      ResultCodeErrTooManyRequests"
    by (metis fst_conv)
  ultimately show ?thesis
    by (simp add: cb_defs)
qed

section \<open>Counters modulo \<open>2 ^ 32\<close>\<close>

text \<open>
  Claim C10. The five counters are 32-bit: each increment of \<^verbatim>\<open>onRequest\<close>,
  \<^verbatim>\<open>onSuccess\<close> and \<^verbatim>\<open>onFailure\<close> is modulo \<open>2 ^ 32\<close>, while the generation is incremented
  modulo \<open>2 ^ 64\<close>. A breaker constructed with \<open>interval = 0\<close> admits every request of a
  sequence of admissions, stays Closed in generation 1, and counts them modulo \<open>2 ^ 32\<close>:
  after \<open>2 ^ 32 - 1\<close> admissions \<open>requests\<close> is 4294967295, and after \<open>2 ^ 32\<close> it is 0.
\<close>

theorem counters_wrap:
  "unat (requests (Counts_onRequest c)) = (unat (requests c) + 1) mod 2 ^ 32 \<and>
   unat (total_successes (Counts_onSuccess c)) = (unat (total_successes c) + 1) mod 2 ^ 32 \<and>
   unat (consecutive_successes (Counts_onSuccess c)) =
     (unat (consecutive_successes c) + 1) mod 2 ^ 32 \<and>
   unat (total_failures (Counts_onFailure c)) = (unat (total_failures c) + 1) mod 2 ^ 32 \<and>
   unat (consecutive_failures (Counts_onFailure c)) =
     (unat (consecutive_failures c) + 1) mod 2 ^ 32 \<and>
   unat (cb_generation (toNewGeneration now cb)) = (unat (cb_generation cb) + 1) mod 2 ^ 64 \<and>
   (interval st = 0 \<longrightarrow>
      (\<forall>k. fst (beforeRequest (clock k) (admissions clock k (new_CircuitBreaker st now))) =
             ResultCodeOK \<and>
           cb_state (admissions clock k (new_CircuitBreaker st now)) = STATE_CLOSED \<and>
           cb_generation (admissions clock k (new_CircuitBreaker st now)) = 1 \<and>
           requests (cb_counts (admissions clock k (new_CircuitBreaker st now))) = of_nat k) \<and>
      requests (cb_counts (admissions clock (2 ^ 32 - 1) (new_CircuitBreaker st now))) =
        4294967295 \<and>
      requests (cb_counts (admissions clock (2 ^ 32) (new_CircuitBreaker st now))) = 0)"
proof -
  have incr: "unat (x + 1) = (unat x + 1) mod 2 ^ 32" for x :: "32 word"
    by (simp add: unat_word_ariths)
  have gen: "unat (x + 1) = (unat x + 1) mod 2 ^ 64" for x :: "64 word"
    by (simp add: unat_word_ariths)
  have adm: "fst (beforeRequest (clock k) (admissions clock k (new_CircuitBreaker st now))) =
             ResultCodeOK \<and>
           cb_state (admissions clock k (new_CircuitBreaker st now)) = STATE_CLOSED \<and>
           cb_generation (admissions clock k (new_CircuitBreaker st now)) = 1 \<and>
           requests (cb_counts (admissions clock k (new_CircuitBreaker st now))) = of_nat k"
    if i: "interval st = 0" for k
  proof -
    let ?cb = "new_CircuitBreaker st now"
    have s: "cb_state ?cb = STATE_CLOSED" and e: "cb_expiry ?cb = 0"
      and g: "cb_generation ?cb = 1" and r: "requests (cb_counts ?cb) = 0"
      using i by (simp_all add: new_CircuitBreaker_def toNewGeneration_eq Let_def Counts_init_def)
    show ?thesis
      using s e g r
      by (simp add: admissions_closed [OF s e] beforeRequest_def currentState_closed_no_expiry
          ResultCodeOK_def ResultCodeErrOpenState_def)
  qed
  have p: "of_nat (2 ^ 32 - 1) = (4294967295 :: 32 word)" "of_nat (2 ^ 32) = (0 :: 32 word)"
    by simp_all
  have wrap: "requests (cb_counts (admissions clock (2 ^ 32 - 1) (new_CircuitBreaker st now))) =
        4294967295 \<and>
      requests (cb_counts (admissions clock (2 ^ 32) (new_CircuitBreaker st now))) = 0"
    if i: "interval st = 0"
    using adm [OF i, of "2 ^ 32 - 1"] adm [OF i, of "2 ^ 32"] p by metis
  show ?thesis
    using adm wrap
    by (simp add: Counts_onRequest_def Counts_onSuccess_def Counts_onFailure_def
        toNewGeneration_eq incr gen)
qed

theorem counters_wrap_witness:
  "interval Settings_init = 0 \<and>
   requests (cb_counts (admissions ticks (2 ^ 32 - 1) (new_CircuitBreaker Settings_init 0))) =
     4294967295 \<and>
   requests (cb_counts (admissions ticks (2 ^ 32) (new_CircuitBreaker Settings_init 0))) = 0"
proof -
  have i: "interval Settings_init = 0"
    by (simp add: Settings_init_def)
  from counters_wrap [where st = Settings_init and clock = ticks and now = 0] i
  show ?thesis by blast
qed

section \<open>Reading the state twice\<close>

text \<open>
  Sums of 64-bit counts of nanoseconds: \<open>now + d\<close> is later than \<open>now\<close> for a positive
  \<open>d\<close>, and not earlier for a \<open>d\<close> that is not negative, when the sum of the two signed
  counts is below \<open>2 ^ 63\<close> (it does not overflow); it is not the zero timestamp when \<open>d\<close>
  is positive and \<open>now\<close> is not before the epoch.
\<close>

lemma sint_plus_fits:
  "- (2 ^ 63) \<le> sint (a::64 word) + sint b \<Longrightarrow> sint a + sint b < 2 ^ 63 \<Longrightarrow>
   sint (a + b) = sint a + sint b"
  by (simp add: sint_word_ariths signed_take_bit_int_eq_self)

lemma later_if_positive:
  assumes t: "0 <s d" and f: "sint (now::64 word) + sint d < 2 ^ 63"
  shows "now <s now + d"
proof -
  from t have p: "0 < sint d" by (simp add: word_sless_alt)
  have "- (2 ^ 63) \<le> sint now" using sint_ge [of now] by simp
  with p have "- (2 ^ 63) \<le> sint now + sint d" by simp
  from sint_plus_fits [OF this f] p show ?thesis by (simp add: word_sless_alt)
qed

lemma not_earlier_if_not_negative:
  assumes t: "0 \<le>s d" and f: "sint (now::64 word) + sint d < 2 ^ 63"
  shows "\<not> now + d <s now"
proof -
  from t have p: "0 \<le> sint d" by (simp add: word_sle_eq)
  have "- (2 ^ 63) \<le> sint now" using sint_ge [of now] by simp
  with p have "- (2 ^ 63) \<le> sint now + sint d" by simp
  from sint_plus_fits [OF this f] p show ?thesis by (simp add: word_sless_alt)
qed

lemma nonzero_if_positive:
  assumes t: "0 <s d" and n: "0 \<le>s (now::64 word)"
  shows "now + d \<noteq> 0"
proof
  assume z: "now + d = 0"
  from t n have p: "0 < sint now + sint d"
    by (simp add: word_sless_alt word_sle_eq)
  have "sint now < 2 ^ 63" "sint d < 2 ^ 63"
    using sint_lt [of now] sint_lt [of d] by simp_all
  then have u: "sint now + sint d < 2 ^ 64" by simp
  from z have "sint (now + d) = 0" by simp
  then have "signed_take_bit 63 (sint now + sint d) = signed_take_bit 63 (0::int)"
    by (simp add: sint_word_ariths)
  then have "take_bit (Suc 63) (sint now + sint d) = take_bit (Suc 63) (0::int)"
    by (simp only: signed_take_bit_eq_iff_take_bit_eq)
  with p u show False
    by (simp add: take_bit_int_eq_self)
qed

text \<open>
  Two breakers constructed at time 10, read twice by \<^verbatim>\<open>GetState\<close> at time 10. The first has
  the interval -1 nanosecond (the type is signed, and the constructor only replaces 0): its
  expiry is 9, already passed, and each \<^verbatim>\<open>GetState\<close> begins a new generation, the first
  call generation 2 and the second generation 3. The second has the largest interval,
  \<open>2 ^ 63 - 1\<close> nanoseconds: the 64-bit sum \<open>10 + interval\<close> overflows to a time before
  the epoch, so again each \<^verbatim>\<open>GetState\<close> begins a new generation.
\<close>

theorem GetState_twice_counterexample:
  "cb_generation (snd (GetState 10 (new_CircuitBreaker (Settings_init\<lparr>interval := - 1\<rparr>) 10))) = 2 \<and>
   cb_generation (snd (GetState 10 (snd (GetState 10
     (new_CircuitBreaker (Settings_init\<lparr>interval := - 1\<rparr>) 10))))) = 3 \<and>
   cb_generation (snd (GetState 10
     (new_CircuitBreaker (Settings_init\<lparr>interval := 9223372036854775807\<rparr>) 10))) = 2 \<and>
   cb_generation (snd (GetState 10 (snd (GetState 10
     (new_CircuitBreaker (Settings_init\<lparr>interval := 9223372036854775807\<rparr>) 10))))) = 3"
  by (simp add: cb_defs)

text \<open>
  Claim C9, when the expiry of a Closed window beginning now is not already passed. After
  one \<^verbatim>\<open>currentState(now)\<close>, if the 64-bit sum \<open>now + interval\<close> is not earlier than
  \<open>now\<close>, a second call with the same \<open>now\<close> returns the same generation and state and
  writes nothing, and so does \<^verbatim>\<open>GetState\<close>. The sum is not earlier than \<open>now\<close> for every
  interval that is not negative and whose sum with \<open>now\<close> does not overflow 64 bits.
\<close>

theorem currentState_idempotent:
  assumes "currentState now cb = (g, st, cb1)"
  shows "(\<not> now + interval (cb_settings cb) <s now \<longrightarrow>
            currentState now cb1 = (g, st, cb1) \<and> GetState now cb1 = (st, cb1)) \<and>
         (0 \<le>s interval (cb_settings cb) \<and>
          sint now + sint (interval (cb_settings cb)) < 2 ^ 63 \<longrightarrow>
            \<not> now + interval (cb_settings cb) <s now)"
proof -
  have "currentState now cb1 = (g, st, cb1) \<and> GetState now cb1 = (st, cb1)"
    if "\<not> now + interval (cb_settings cb) <s now"
    using assms that
    by (auto simp: GetState_def currentState_def toNewGeneration_eq setState_eq Let_def
        split: State.splits if_splits)
  then show ?thesis
    using not_earlier_if_not_negative [of "interval (cb_settings cb)" now] by blast
qed

theorem currentState_idempotent_witness:
  "currentState (seconds 31) (new_CircuitBreaker (Settings_init\<lparr>interval := seconds 30\<rparr>) 0) =
     (2, STATE_CLOSED,
      (new_CircuitBreaker (Settings_init\<lparr>interval := seconds 30\<rparr>) 0)
        \<lparr>cb_generation := 2, cb_expiry := seconds 61\<rparr>) \<and>
   0 \<le>s interval (cb_settings (new_CircuitBreaker (Settings_init\<lparr>interval := seconds 30\<rparr>) 0)) \<and>
   sint (seconds 31) +
     sint (interval (cb_settings (new_CircuitBreaker (Settings_init\<lparr>interval := seconds 30\<rparr>) 0)))
     < 2 ^ 63 \<and>
   GetState (seconds 31)
     ((new_CircuitBreaker (Settings_init\<lparr>interval := seconds 30\<rparr>) 0)
        \<lparr>cb_generation := 2, cb_expiry := seconds 61\<rparr>) =
     (STATE_CLOSED,
      (new_CircuitBreaker (Settings_init\<lparr>interval := seconds 30\<rparr>) 0)
        \<lparr>cb_generation := 2, cb_expiry := seconds 61\<rparr>)"
proof -
  let ?cb = "new_CircuitBreaker (Settings_init\<lparr>interval := seconds 30\<rparr>) 0"
  have c: "currentState (seconds 31) ?cb =
     (2, STATE_CLOSED, ?cb\<lparr>cb_generation := 2, cb_expiry := seconds 61\<rparr>)"
    by (simp add: cb_defs)
  have i: "0 \<le>s interval (cb_settings ?cb) \<and>
      sint (seconds 31) + sint (interval (cb_settings ?cb)) < 2 ^ 63"
    by (simp add: cb_defs word_sle_eq)
  from currentState_idempotent [OF c] i c show ?thesis by blast
qed

section \<open>Tripping under the default predicate\<close>

text \<open>A failed request on a Closed breaker with no reset falling due.\<close>

lemma fail_closed:
  assumes rt: "ready_to_trip (cb_settings cb) = Some defaultReadyToTrip"
    and st: "cb_state cb = STATE_CLOSED"
    and e1: "cb_expiry cb = 0 \<or> now1 \<le>s cb_expiry cb"
    and e2: "cb_expiry cb = 0 \<or> now2 \<le>s cb_expiry cb"
  shows "fail now1 now2 cb =
           Inr (0,
             if consecutive_failures (cb_counts cb) + 1 > 5
             then cb\<lparr>cb_state := STATE_OPEN, cb_generation := cb_generation cb + 1,
                     cb_counts := Counts_init, cb_expiry := now2 + timeout (cb_settings cb),
                     cb_notified :=
                       (case on_state_change (cb_settings cb) of
                          None \<Rightarrow> cb_notified cb
                        | Some f \<Rightarrow> cb_notified cb @
                            [(name (cb_settings cb), STATE_CLOSED, STATE_OPEN)])\<rparr>
             else cb\<lparr>cb_counts := Counts_onFailure (Counts_onRequest (cb_counts cb))\<rparr>)"
proof -
  let ?cb1 = "cb\<lparr>cb_counts := Counts_onRequest (cb_counts cb)\<rparr>"
  have b: "beforeRequest now1 cb = (ResultCodeOK, cb_generation cb, ?cb1)"
    using st e1 by (simp add: beforeRequest_def currentState_closed_no_expiry)
  have c: "currentState now2 ?cb1 = (cb_generation cb, STATE_CLOSED, ?cb1)"
    using st e2 currentState_closed_no_expiry [of ?cb1 now2] by simp
  have a: "afterRequest now2 (cb_generation cb) False ?cb1 =
      Inr (if consecutive_failures (cb_counts cb) + 1 > 5
             then cb\<lparr>cb_state := STATE_OPEN, cb_generation := cb_generation cb + 1,
                     cb_counts := Counts_init, cb_expiry := now2 + timeout (cb_settings cb),
                     cb_notified :=
                       (case on_state_change (cb_settings cb) of
                          None \<Rightarrow> cb_notified cb
                        | Some f \<Rightarrow> cb_notified cb @
                            [(name (cb_settings cb), STATE_CLOSED, STATE_OPEN)])\<rparr>
             else cb\<lparr>cb_counts := Counts_onFailure (Counts_onRequest (cb_counts cb))\<rparr>)"
    unfolding afterRequest_def c
    using rt st
    by (auto simp: onFailure_def setState_eq defaultReadyToTrip_def
        Counts_onFailure_def Counts_onRequest_def Let_def split: option.split)
  show ?thesis
    by (simp add: fail_def Execute_def b a ResultCodeOK_def)
qed

lemma fails_closed:
  assumes rt: "ready_to_trip (cb_settings cb) = Some defaultReadyToTrip"
    and st: "cb_state cb = STATE_CLOSED"
    and cf: "consecutive_failures (cb_counts cb) = 0"
    and ex: "cb_expiry cb = 0 \<or> (\<forall>k < 2 * n. clock k \<le>s cb_expiry cb)"
    and n: "n \<le> 5"
  shows "\<exists>cb1. fails clock n cb = Inr cb1 \<and> cb_state cb1 = STATE_CLOSED \<and>
           cb_settings cb1 = cb_settings cb \<and> cb_expiry cb1 = cb_expiry cb \<and>
           cb_generation cb1 = cb_generation cb \<and> cb_notified cb1 = cb_notified cb \<and>
           consecutive_failures (cb_counts cb1) = of_nat n \<and>
           total_failures (cb_counts cb1) = total_failures (cb_counts cb) + of_nat n \<and>
           requests (cb_counts cb1) = requests (cb_counts cb) + of_nat n"
  using ex n
proof (induction n)
  case 0
  then show ?case using st cf by simp
next
  case (Suc n)
  from Suc.prems have "cb_expiry cb = 0 \<or> (\<forall>k < 2 * n. clock k \<le>s cb_expiry cb)" "n \<le> 5"
    by auto
  from Suc.IH [OF this] obtain cb1 where
    f: "fails clock n cb = Inr cb1" and s1: "cb_state cb1 = STATE_CLOSED"
    and t1: "cb_settings cb1 = cb_settings cb" and x1: "cb_expiry cb1 = cb_expiry cb"
    and g1: "cb_generation cb1 = cb_generation cb" and n1: "cb_notified cb1 = cb_notified cb"
    and c1: "consecutive_failures (cb_counts cb1) = of_nat n"
    and tf1: "total_failures (cb_counts cb1) = total_failures (cb_counts cb) + of_nat n"
    and r1: "requests (cb_counts cb1) = requests (cb_counts cb) + of_nat n"
    by blast
  from Suc.prems have e: "cb_expiry cb1 = 0 \<or> clock (2 * n) \<le>s cb_expiry cb1"
    "cb_expiry cb1 = 0 \<or> clock (2 * n + 1) \<le>s cb_expiry cb1"
    using x1 by auto
  from Suc.prems have "n < 5" by simp
  then have "unat (of_nat n + 1 :: 32 word) = n + 1"
    by (simp add: unat_word_ariths unat_of_nat)
  with \<open>n < 5\<close> have le: "\<not> (5 :: 32 word) < of_nat n + 1"
    by (simp add: word_less_nat_alt)
  from rt t1 have rt1: "ready_to_trip (cb_settings cb1) = Some defaultReadyToTrip"
    by simp
  from fail_closed [OF rt1 s1 e] le c1
  have fl: "fail (clock (2 * n)) (clock (Suc (2 * n))) cb1 =
      Inr (0, cb1\<lparr>cb_counts := Counts_onFailure (Counts_onRequest (cb_counts cb1))\<rparr>)"
    by simp
  show ?case
    using s1 t1 x1 g1 n1 c1 tf1 r1
    by (simp add: f fl Counts_onFailure_def Counts_onRequest_def add.assoc add.commute)
qed

text \<open>
  Four breakers with the default predicate, constructed at time 0, each running six failed
  requests; the clock of the first, second and fourth reads 0, 1, ..., 11.

  \<^item> The timeout is -1 nanosecond (the type is signed, and the constructor only replaces
    0): the sixth failure, reported at time 11, opens the breaker with the expiry 10, which
    is not in the future.
  \<^item> The timeout is the largest, \<open>2 ^ 63 - 1\<close> nanoseconds: the sixth failure, reported
    at time 11, opens the breaker with the 64-bit sum \<open>11 + timeout\<close> as expiry, which has
    overflowed to a time before 11.
  \<^item> The timeout is 11 nanoseconds and the clock reads 0, -1, ..., -11, times before the
    epoch: the sixth failure, reported at time -11, opens the breaker with the zero
    timestamp as expiry.
  \<^item> The interval is 10 nanoseconds, so the Closed window of construction expires at time
    10: the report of the sixth failure, at time 11, first begins generation 2 and the
    failure, of generation 1, is discarded. After six consecutive failures the breaker is
    Closed.
\<close>

theorem sixth_failure_counterexample:
  "fails ticks 6 (new_CircuitBreaker (Settings_init\<lparr>timeout := - 1\<rparr>) 0) =
     Inr ((new_CircuitBreaker (Settings_init\<lparr>timeout := - 1\<rparr>) 0)
            \<lparr>cb_state := STATE_OPEN, cb_generation := 2, cb_expiry := 10\<rparr>) \<and>
   ticks 11 = 11 \<and> \<not> (11 :: 64 word) <s 10 \<and>
   fails ticks 6 (new_CircuitBreaker (Settings_init\<lparr>timeout := 9223372036854775807\<rparr>) 0) =
     Inr ((new_CircuitBreaker (Settings_init\<lparr>timeout := 9223372036854775807\<rparr>) 0)
            \<lparr>cb_state := STATE_OPEN, cb_generation := 2,
             cb_expiry := 11 + 9223372036854775807\<rparr>) \<and>
   (11 + 9223372036854775807 :: 64 word) <s 11 \<and>
   fails (uminus \<circ> ticks) 6 (new_CircuitBreaker (Settings_init\<lparr>timeout := 11\<rparr>) 0) =
     Inr ((new_CircuitBreaker (Settings_init\<lparr>timeout := 11\<rparr>) 0)
            \<lparr>cb_state := STATE_OPEN, cb_generation := 2, cb_expiry := 0\<rparr>) \<and>
   fails ticks 6 (new_CircuitBreaker (Settings_init\<lparr>interval := 10\<rparr>) 0) =
     Inr ((new_CircuitBreaker (Settings_init\<lparr>interval := 10\<rparr>) 0)
            \<lparr>cb_generation := 2, cb_expiry := 21\<rparr>)"
proof -
  have six: "(6::nat) = Suc (Suc (Suc (Suc (Suc (Suc 0)))))"
    by simp
  show ?thesis
    unfolding six by (simp add: fail_def Execute_def ticks_def cb_defs word_sless_alt)
qed

text \<open>
  Claim C3, with no reset of the Closed window among the failures, and the expiry in the
  future for a positive timeout that does not overflow. Under the default predicate, a
  failure reported with the current generation while Closed opens the breaker exactly when
  \<open>consecutive_failures\<close>, with this failure tallied, exceeds 5; otherwise the failure is
  tallied and nothing else changes. On opening, the counts are all zero, a new generation
  begins and the expiry is the 64-bit sum \<open>now + timeout\<close>: later than \<open>now\<close> when the
  timeout is positive and the sum does not overflow, and not the zero timestamp when the
  timeout is positive and \<open>now\<close> is not before the epoch. So, from a Closed breaker with
  \<open>consecutive_failures = 0\<close> whose Closed window does not expire before the twelve clock
  readings of six failed requests (its expiry is the zero timestamp, or no reading is
  later than it), the first five failures leave it Closed in the same generation with
  \<open>consecutive_failures\<close> equal to their number, and the sixth opens it.
\<close>

theorem default_trip:
  assumes rt: "ready_to_trip (cb_settings cb) = Some defaultReadyToTrip"
  shows
  "(currentState now cb = (gen, STATE_CLOSED, cb1) \<longrightarrow>
      (\<exists>cb2. afterRequest now gen False cb = Inr cb2 \<and>
         (cb_state cb2 = STATE_OPEN \<longleftrightarrow>
            consecutive_failures (Counts_onFailure (cb_counts cb1)) > 5) \<and>
         (cb_state cb2 = STATE_OPEN \<longrightarrow>
            cb_counts cb2 = Counts_init \<and> cb_generation cb2 = gen + 1 \<and>
            cb_expiry cb2 = now + timeout (cb_settings cb) \<and>
            (0 <s timeout (cb_settings cb) \<and>
             sint now + sint (timeout (cb_settings cb)) < 2 ^ 63 \<longrightarrow> now <s cb_expiry cb2) \<and>
            (0 <s timeout (cb_settings cb) \<and> 0 \<le>s now \<longrightarrow> cb_expiry cb2 \<noteq> 0)) \<and>
         (cb_state cb2 \<noteq> STATE_OPEN \<longrightarrow>
            cb2 = cb1\<lparr>cb_counts := Counts_onFailure (cb_counts cb1)\<rparr>))) \<and>
   (cb_state cb = STATE_CLOSED \<and> consecutive_failures (cb_counts cb) = 0 \<and>
    (cb_expiry cb = 0 \<or> (\<forall>k < 12. clock k \<le>s cb_expiry cb)) \<longrightarrow>
      (\<forall>n \<le> 5. \<exists>cb2. fails clock n cb = Inr cb2 \<and> cb_state cb2 = STATE_CLOSED \<and>
         cb_generation cb2 = cb_generation cb \<and>
         consecutive_failures (cb_counts cb2) = of_nat n) \<and>
      (\<exists>cb2. fails clock 6 cb = Inr cb2 \<and> cb_state cb2 = STATE_OPEN \<and>
         cb_generation cb2 = cb_generation cb + 1 \<and> cb_counts cb2 = Counts_init \<and>
         cb_expiry cb2 = clock 11 + timeout (cb_settings cb) \<and>
         (0 <s timeout (cb_settings cb) \<and>
          sint (clock 11) + sint (timeout (cb_settings cb)) < 2 ^ 63 \<longrightarrow>
            clock 11 <s cb_expiry cb2) \<and>
         (0 <s timeout (cb_settings cb) \<and> 0 \<le>s clock 11 \<longrightarrow> cb_expiry cb2 \<noteq> 0)))"
proof -
  let ?t = "timeout (cb_settings cb)"
  have future: "0 <s ?t \<and> sint m + sint ?t < 2 ^ 63 \<longrightarrow> m <s m + ?t"
    and nonzero: "0 <s ?t \<and> 0 \<le>s m \<longrightarrow> m + ?t \<noteq> 0" for m
    using later_if_positive [of ?t m] nonzero_if_positive [of ?t m] by blast+
  have single: "\<exists>cb2. afterRequest now gen False cb = Inr cb2 \<and>
         (cb_state cb2 = STATE_OPEN \<longleftrightarrow>
            consecutive_failures (Counts_onFailure (cb_counts cb1)) > 5) \<and>
         (cb_state cb2 = STATE_OPEN \<longrightarrow>
            cb_counts cb2 = Counts_init \<and> cb_generation cb2 = gen + 1 \<and>
            cb_expiry cb2 = now + ?t \<and>
            (0 <s ?t \<and> sint now + sint ?t < 2 ^ 63 \<longrightarrow> now <s cb_expiry cb2) \<and>
            (0 <s ?t \<and> 0 \<le>s now \<longrightarrow> cb_expiry cb2 \<noteq> 0)) \<and>
         (cb_state cb2 \<noteq> STATE_OPEN \<longrightarrow>
            cb2 = cb1\<lparr>cb_counts := Counts_onFailure (cb_counts cb1)\<rparr>)"
    if c: "currentState now cb = (gen, STATE_CLOSED, cb1)"
  proof -
    from c have s1: "cb_state cb1 = STATE_CLOSED" and g1: "cb_generation cb1 = gen"
      using currentState_result [OF c] by simp_all
    from c rt have t1: "cb_settings cb1 = cb_settings cb"
      and rt1: "ready_to_trip (cb_settings cb1) = Some defaultReadyToTrip"
      using settings_currentState by simp_all
    show ?thesis
      using s1 g1 t1 rt1 future [of now] nonzero [of now]
      by (simp add: afterRequest_def c onFailure_def setState_eq defaultReadyToTrip_def Let_def)
  qed
  have seq: "(\<forall>n \<le> 5. \<exists>cb2. fails clock n cb = Inr cb2 \<and> cb_state cb2 = STATE_CLOSED \<and>
         cb_generation cb2 = cb_generation cb \<and>
         consecutive_failures (cb_counts cb2) = of_nat n) \<and>
      (\<exists>cb2. fails clock 6 cb = Inr cb2 \<and> cb_state cb2 = STATE_OPEN \<and>
         cb_generation cb2 = cb_generation cb + 1 \<and> cb_counts cb2 = Counts_init \<and>
         cb_expiry cb2 = clock 11 + ?t \<and>
         (0 <s ?t \<and> sint (clock 11) + sint ?t < 2 ^ 63 \<longrightarrow> clock 11 <s cb_expiry cb2) \<and>
         (0 <s ?t \<and> 0 \<le>s clock 11 \<longrightarrow> cb_expiry cb2 \<noteq> 0))"
    if st: "cb_state cb = STATE_CLOSED" and cf: "consecutive_failures (cb_counts cb) = 0"
      and ex: "cb_expiry cb = 0 \<or> (\<forall>k < 12. clock k \<le>s cb_expiry cb)"
  proof -
    have five: "\<exists>cb2. fails clock n cb = Inr cb2 \<and> cb_state cb2 = STATE_CLOSED \<and>
         cb_generation cb2 = cb_generation cb \<and>
         consecutive_failures (cb_counts cb2) = of_nat n" if "n \<le> 5" for n
    proof -
      from ex that have "cb_expiry cb = 0 \<or> (\<forall>k < 2 * n. clock k \<le>s cb_expiry cb)"
        by auto
      from fails_closed [OF rt st cf this that] show ?thesis by blast
    qed
    from ex have "cb_expiry cb = 0 \<or> (\<forall>k < 2 * 5. clock k \<le>s cb_expiry cb)"
      by auto
    from fails_closed [OF rt st cf this] obtain cb5 where
      f: "fails clock 5 cb = Inr cb5" and s5: "cb_state cb5 = STATE_CLOSED"
      and t5: "cb_settings cb5 = cb_settings cb" and x5: "cb_expiry cb5 = cb_expiry cb"
      and g5: "cb_generation cb5 = cb_generation cb"
      and c5: "consecutive_failures (cb_counts cb5) = 5"
      by auto
    from ex x5 have e: "cb_expiry cb5 = 0 \<or> clock 10 \<le>s cb_expiry cb5"
      "cb_expiry cb5 = 0 \<or> clock 11 \<le>s cb_expiry cb5"
      by auto
    from rt t5 have rt5: "ready_to_trip (cb_settings cb5) = Some defaultReadyToTrip"
      by simp
    have six: "fails clock 6 cb =
        (case fail (clock 10) (clock 11) cb5 of Inl e \<Rightarrow> Inl e | Inr (err, cb2) \<Rightarrow> Inr cb2)"
      using fails.simps(2) [of clock 5 cb] f by simp
    have sixth: "\<exists>cb2. fails clock 6 cb = Inr cb2 \<and> cb_state cb2 = STATE_OPEN \<and>
         cb_generation cb2 = cb_generation cb + 1 \<and> cb_counts cb2 = Counts_init \<and>
         cb_expiry cb2 = clock 11 + ?t \<and>
         (0 <s ?t \<and> sint (clock 11) + sint ?t < 2 ^ 63 \<longrightarrow> clock 11 <s cb_expiry cb2) \<and>
         (0 <s ?t \<and> 0 \<le>s clock 11 \<longrightarrow> cb_expiry cb2 \<noteq> 0)"
      using c5 t5 g5 future [of "clock 11"] nonzero [of "clock 11"]
      by (simp add: six fail_closed [OF rt5 s5 e])
    from five sixth show ?thesis by blast
  qed
  from single seq show ?thesis by blast
qed

theorem default_trip_witness:
  "ready_to_trip (cb_settings (new_CircuitBreaker Settings_init 0)) = Some defaultReadyToTrip \<and>
   (\<exists>cb2. fails ticks 5 (new_CircuitBreaker Settings_init 0) = Inr cb2 \<and>
      cb_state cb2 = STATE_CLOSED \<and> consecutive_failures (cb_counts cb2) = 5) \<and>
   (\<exists>cb2. fails ticks 6 (new_CircuitBreaker Settings_init 0) = Inr cb2 \<and>
      cb_state cb2 = STATE_OPEN \<and> cb_counts cb2 = Counts_init \<and>
      cb_expiry cb2 = 11 + seconds 60 \<and> ticks 11 <s cb_expiry cb2 \<and> cb_expiry cb2 \<noteq> 0)"
proof -
  let ?cb = "new_CircuitBreaker Settings_init 0"
  have rt: "ready_to_trip (cb_settings ?cb) = Some defaultReadyToTrip"
    by (simp add: cb_defs)
  have h: "cb_state ?cb = STATE_CLOSED \<and> consecutive_failures (cb_counts ?cb) = 0 \<and>
      (cb_expiry ?cb = 0 \<or> (\<forall>k < 12. ticks k \<le>s cb_expiry ?cb))"
    by (simp add: cb_defs)
  have t: "0 <s timeout (cb_settings ?cb) \<and>
      sint (ticks 11) + sint (timeout (cb_settings ?cb)) < 2 ^ 63"
    "0 <s timeout (cb_settings ?cb) \<and> 0 \<le>s ticks 11"
    "timeout (cb_settings ?cb) = seconds 60" "ticks 11 = 11" "(5::nat) \<le> 5"
    by (simp_all add: cb_defs ticks_def word_sless_alt word_sle_eq)
  note d = default_trip [OF rt, where clock = ticks]
  from d h t(5) have "\<exists>cb2. fails ticks 5 ?cb = Inr cb2 \<and>
      cb_state cb2 = STATE_CLOSED \<and> consecutive_failures (cb_counts cb2) = of_nat 5"
    by blast
  moreover from d h t(1,2) have "\<exists>cb2. fails ticks 6 ?cb = Inr cb2 \<and>
      cb_state cb2 = STATE_OPEN \<and> cb_counts cb2 = Counts_init \<and>
      cb_expiry cb2 = ticks 11 + timeout (cb_settings ?cb) \<and> ticks 11 <s cb_expiry cb2 \<and>
      cb_expiry cb2 \<noteq> 0"
    by blast
  ultimately show ?thesis
    using rt t(3,4) by simp
qed

section \<open>The invariant of the counters\<close>

subsection \<open>Any sequence\<close>

lemma currentState_cases:
  "currentState now cb = (g, st, cb1) \<Longrightarrow>
   cb1 = cb \<or>
   (cb_generation cb1 = cb_generation cb + 1 \<and> cb_counts cb1 = Counts_init \<and>
    cb_settings cb1 = cb_settings cb)"
  by (auto simp: currentState_def toNewGeneration_eq setState_eq Let_def
      split: State.splits if_splits)

lemma setState_cases:
  "setState st now cb = cb \<or>
   (cb_generation (setState st now cb) = cb_generation cb + 1 \<and>
    cb_counts (setState st now cb) = Counts_init \<and>
    cb_settings (setState st now cb) = cb_settings cb)"
  by (simp add: setState_eq)

lemma streak_inv_setState: "streak_inv cb \<Longrightarrow> streak_inv (setState st now cb)"
  by (simp add: streak_inv_def setState_eq Counts_init_def)

lemma streak_inv_currentState:
  "streak_inv cb \<Longrightarrow> currentState now cb = (g, st, cb1) \<Longrightarrow> streak_inv cb1"
  using currentState_cases [of now cb g st cb1]
  by (auto simp: streak_inv_def Counts_init_def)

lemma streak_inv_step: "streak_inv cb \<Longrightarrow> \<exists>cb1. step c cb = Inr cb1 \<and> streak_inv cb1"
proof (cases c)
  case (Call_beforeRequest now)
  assume i: "streak_inv cb"
  obtain g st cb0 where cs: "currentState now cb = (g, st, cb0)"
    by (cases "currentState now cb") auto
  from streak_inv_currentState [OF i cs] have "streak_inv cb0" .
  then have "streak_inv (cb0\<lparr>cb_counts := Counts_onRequest (cb_counts cb0)\<rparr>)"
    by (simp add: streak_inv_def Counts_onRequest_def)
  with \<open>streak_inv cb0\<close> show ?thesis
    using Call_beforeRequest cs by (simp add: beforeRequest_def)
next
  case (Call_afterRequest now tok success)
  assume i: "streak_inv cb"
  obtain g st cb0 where cs: "currentState now cb = (g, st, cb0)"
    by (cases "currentState now cb") auto
  from streak_inv_currentState [OF i cs] have i0: "streak_inv cb0" .
  then obtain f where f: "ready_to_trip (cb_settings cb0) = Some f"
    by (auto simp: streak_inv_def)
  from i0 have s: "streak_inv (cb0\<lparr>cb_counts := Counts_onSuccess (cb_counts cb0)\<rparr>)"
    and fl: "streak_inv (cb0\<lparr>cb_counts := Counts_onFailure (cb_counts cb0)\<rparr>)"
    by (simp_all add: streak_inv_def Counts_onSuccess_def Counts_onFailure_def)
  have "streak_inv (onSuccess st now cb0)"
    using i0 s streak_inv_setState [OF s, of STATE_CLOSED now]
    by (cases st) (simp_all add: onSuccess_def Let_def)
  moreover have "\<exists>cb1. onFailure st now cb0 = Inr cb1 \<and> streak_inv cb1"
    using i0 fl f streak_inv_setState [OF fl, of STATE_OPEN now]
      streak_inv_setState [OF i0, of STATE_OPEN now]
    by (cases st) (simp_all add: onFailure_def Let_def)
  ultimately show ?thesis
    using Call_afterRequest cs i0 by (auto simp: afterRequest_def)
next
  case (Call_GetState now)
  assume i: "streak_inv cb"
  obtain g st cb0 where cs: "currentState now cb = (g, st, cb0)"
    by (cases "currentState now cb") auto
  from streak_inv_currentState [OF i cs] show ?thesis
    using Call_GetState cs by (simp add: GetState_def)
qed

lemma streak_inv_run: "streak_inv cb \<Longrightarrow> \<exists>cb1. run calls cb = Inr cb1 \<and> streak_inv cb1"
proof (induction calls arbitrary: cb)
  case Nil
  then show ?case by simp
next
  case (Cons c calls)
  from streak_inv_step [OF Cons.prems, of c] obtain cb1 where
    "step c cb = Inr cb1" "streak_inv cb1"
    by blast
  with Cons.IH [of cb1] show ?case by simp
qed

lemma streak_inv_new_CircuitBreaker: "streak_inv (new_CircuitBreaker st now)"
  by (simp add: streak_inv_def new_CircuitBreaker_def toNewGeneration_eq Counts_init_def Let_def)

subsection \<open>Sequences in which no total wraps\<close>

lemma unat_incr32: "x + 1 \<noteq> 0 \<Longrightarrow> unat (x + 1 :: 32 word) = unat x + 1"
proof -
  assume n: "x + 1 \<noteq> 0"
  have "unat x < 2 ^ 32" using unsigned_less [of x] by simp
  then consider "unat x < 2 ^ 32 - 1" | "unat x = 2 ^ 32 - 1" by linarith
  then show ?thesis
  proof cases
    case 1
    then show ?thesis by (simp add: unat_word_ariths)
  next
    case 2
    then have "unat (x + 1) = 0" by (simp add: unat_word_ariths)
    then have "x + 1 = 0" by (simp add: unat_eq_0)
    with n show ?thesis by simp
  qed
qed

lemma streaks_inv_fresh:
  "streaks_inv cb \<Longrightarrow> cb_counts cb1 = Counts_init \<Longrightarrow> cb_settings cb1 = cb_settings cb \<Longrightarrow>
   streaks_inv cb1"
  by (simp add: streaks_inv_def Counts_streaks_def Counts_init_def)

lemma streaks_inv_setState: "streaks_inv cb \<Longrightarrow> streaks_inv (setState st now cb)"
  using setState_cases [of st now cb] streaks_inv_fresh [of cb "setState st now cb"] by auto

lemma streaks_inv_currentState:
  "streaks_inv cb \<Longrightarrow> currentState now cb = (g, st, cb1) \<Longrightarrow> streaks_inv cb1"
  using currentState_cases [of now cb g st cb1] streaks_inv_fresh [of cb cb1] by auto

lemma streaks_inv_onRequest:
  "streaks_inv cb \<Longrightarrow> streaks_inv (cb\<lparr>cb_counts := Counts_onRequest (cb_counts cb)\<rparr>)"
  by (simp add: streaks_inv_def Counts_streaks_def Counts_onRequest_def)

lemma streaks_inv_onSuccess:
  assumes i: "streaks_inv cb" and w: "total_successes (cb_counts cb) + 1 \<noteq> 0"
  shows "streaks_inv (cb\<lparr>cb_counts := Counts_onSuccess (cb_counts cb)\<rparr>)"
proof -
  let ?c = "cb_counts cb"
  from w have t: "unat (total_successes ?c + 1) = unat (total_successes ?c) + 1"
    by (rule unat_incr32)
  have "unat (total_successes ?c + 1) < 2 ^ 32"
    using unsigned_less [of "total_successes ?c + 1"] by simp
  with t i have "unat (consecutive_successes ?c) < 2 ^ 32 - 1"
    by (simp add: streaks_inv_def)
  then have s: "unat (consecutive_successes ?c + 1) = unat (consecutive_successes ?c) + 1"
    by (simp add: unat_word_ariths)
  then have "unat (consecutive_successes ?c + 1) \<noteq> 0"
    by simp
  then have nz: "consecutive_successes ?c + 1 \<noteq> 0"
    by (metis unat_0)
  show ?thesis
    using i t s nz by (simp add: streaks_inv_def Counts_streaks_def Counts_onSuccess_def)
qed

lemma streaks_inv_onFailure:
  assumes i: "streaks_inv cb" and w: "total_failures (cb_counts cb) + 1 \<noteq> 0"
  shows "streaks_inv (cb\<lparr>cb_counts := Counts_onFailure (cb_counts cb)\<rparr>)"
proof -
  let ?c = "cb_counts cb"
  from w have t: "unat (total_failures ?c + 1) = unat (total_failures ?c) + 1"
    by (rule unat_incr32)
  have "unat (total_failures ?c + 1) < 2 ^ 32"
    using unsigned_less [of "total_failures ?c + 1"] by simp
  with t i have "unat (consecutive_failures ?c) < 2 ^ 32 - 1"
    by (simp add: streaks_inv_def)
  then have s: "unat (consecutive_failures ?c + 1) = unat (consecutive_failures ?c) + 1"
    by (simp add: unat_word_ariths)
  then have "unat (consecutive_failures ?c + 1) \<noteq> 0"
    by simp
  then have nz: "consecutive_failures ?c + 1 \<noteq> 0"
    by (metis unat_0)
  show ?thesis
    using i t s nz by (simp add: streaks_inv_def Counts_streaks_def Counts_onFailure_def)
qed

lemma streaks_inv_step:
  assumes i: "streaks_inv cb" and w: "totals_fit c cb"
  shows "\<exists>cb1. step c cb = Inr cb1 \<and> streaks_inv cb1"
proof (cases c)
  case (Call_beforeRequest now)
  obtain g st cb0 where cs: "currentState now cb = (g, st, cb0)"
    by (cases "currentState now cb") auto
  from streaks_inv_currentState [OF i cs] have i0: "streaks_inv cb0" .
  with streaks_inv_onRequest [OF i0] show ?thesis
    using Call_beforeRequest cs by (simp add: beforeRequest_def)
next
  case (Call_afterRequest now tok success)
  obtain g st cb0 where cs: "currentState now cb = (g, st, cb0)"
    by (cases "currentState now cb") auto
  from streaks_inv_currentState [OF i cs] have i0: "streaks_inv cb0" .
  then obtain f where f: "ready_to_trip (cb_settings cb0) = Some f"
    by (auto simp: streaks_inv_def)
  show ?thesis
  proof (cases "g = tok")
    case False
    with cs i0 Call_afterRequest show ?thesis
      by (simp add: afterRequest_def)
  next
    case True
    show ?thesis
    proof (cases success)
      case s: True
      have "streaks_inv (onSuccess st now cb0)"
      proof (cases "st = STATE_OPEN")
        case True
        with i0 show ?thesis by (simp add: onSuccess_def)
      next
        case False
        with w Call_afterRequest cs \<open>g = tok\<close> s
        have "total_successes (cb_counts cb0) + 1 \<noteq> 0"
          by simp
        from streaks_inv_onSuccess [OF i0 this]
        have t: "streaks_inv (cb0\<lparr>cb_counts := Counts_onSuccess (cb_counts cb0)\<rparr>)" .
        with streaks_inv_setState [OF t, of STATE_CLOSED now] False show ?thesis
          by (cases st) (simp_all add: onSuccess_def Let_def)
      qed
      with Call_afterRequest cs \<open>g = tok\<close> s show ?thesis
        by (simp add: afterRequest_def)
    next
      case fl: False
      have "\<exists>cb1. onFailure st now cb0 = Inr cb1 \<and> streaks_inv cb1"
      proof (cases "st = STATE_CLOSED")
        case True
        with w Call_afterRequest cs \<open>g = tok\<close> fl
        have "total_failures (cb_counts cb0) + 1 \<noteq> 0"
          by simp
        from streaks_inv_onFailure [OF i0 this]
        have t: "streaks_inv (cb0\<lparr>cb_counts := Counts_onFailure (cb_counts cb0)\<rparr>)" .
        with streaks_inv_setState [OF t, of STATE_OPEN now] f True show ?thesis
          by (simp add: onFailure_def Let_def)
      next
        case False
        with i0 streaks_inv_setState [OF i0, of STATE_OPEN now] show ?thesis
          by (cases st) (simp_all add: onFailure_def)
      qed
      with Call_afterRequest cs \<open>g = tok\<close> fl show ?thesis
        by (simp add: afterRequest_def)
    qed
  qed
next
  case (Call_GetState now)
  obtain g st cb0 where cs: "currentState now cb = (g, st, cb0)"
    by (cases "currentState now cb") auto
  from streaks_inv_currentState [OF i cs] show ?thesis
    using Call_GetState cs by (simp add: GetState_def)
qed

lemma streaks_inv_run:
  "streaks_inv cb \<Longrightarrow> always totals_fit calls cb \<Longrightarrow>
   \<exists>cb1. run calls cb = Inr cb1 \<and> streaks_inv cb1"
proof (induction calls arbitrary: cb)
  case Nil
  then show ?case by simp
next
  case (Cons c calls)
  from Cons.prems have "totals_fit c cb" by simp
  from streaks_inv_step [OF Cons.prems(1) this] obtain cb1 where
    s: "step c cb = Inr cb1" and i: "streaks_inv cb1"
    by blast
  with Cons.prems have "always totals_fit calls cb1" by simp
  from Cons.IH [OF i this] s show ?case by simp
qed

lemma streaks_inv_new_CircuitBreaker: "streaks_inv (new_CircuitBreaker st now)"
  by (simp add: streaks_inv_def Counts_streaks_def new_CircuitBreaker_def toNewGeneration_eq
      Counts_init_def Let_def)

subsection \<open>Sequences that report admissions\<close>

lemma unat_incr64: "unat g \<le> unat (g + 1) \<Longrightarrow> unat (g + 1 :: 64 word) = unat g + 1"
proof -
  assume a: "unat g \<le> unat (g + 1)"
  have "unat g < 2 ^ 64" using unsigned_less [of g] by simp
  then consider "unat g < 2 ^ 64 - 1" | "unat g = 2 ^ 64 - 1" by linarith
  then show ?thesis
  proof cases
    case 1
    then show ?thesis by (simp add: unat_word_ariths)
  next
    case 2
    then have "unat (g + 1) = 0" by (simp add: unat_word_ariths)
    with a 2 show ?thesis by simp
  qed
qed

lemma unat_incr64_twice:
  assumes a: "unat g \<le> unat (g + 1 + 1 :: 64 word)"
  shows "unat (g + 1) = unat g + 1 \<and> unat (g + 1 + 1) = unat g + 2"
proof -
  have e: "unat (g + 1 + 1) = (unat g + 2) mod 2 ^ 64"
    by (simp add: unat_word_ariths mod_simps)
  have "unat g < 2 ^ 64" using unsigned_less [of g] by simp
  then consider "unat g < 2 ^ 64 - 2" | "unat g = 2 ^ 64 - 2" | "unat g = 2 ^ 64 - 1"
    by linarith
  then show ?thesis
  proof cases
    case 1
    then show ?thesis by (simp add: e) (simp add: unat_word_ariths)
  next
    case 2
    with e have "unat (g + 1 + 1) = 0" by simp
    with a 2 show ?thesis by simp
  next
    case 3
    with e have "unat (g + 1 + 1) = 1" by simp
    with a 3 show ?thesis by simp
  qed
qed

lemma generation_order:
  assumes "unat g \<le> unat (g2 :: 64 word)" "g0 = g \<or> g0 = g + 1" "g2 = g0 \<or> g2 = g0 + 1"
  shows "(g0 = g + 1 \<longrightarrow> unat g \<le> unat (g + 1)) \<and> (g2 = g0 + 1 \<longrightarrow> unat g0 \<le> unat (g0 + 1))"
  using assms unat_incr64_twice [of g] by auto

lemma count_list_remove1:
  "count_list (remove1 t xs) g = (if t = g \<and> g \<in> set xs then count_list xs g - 1 else count_list xs g)"
  by (induction xs) auto

lemma paired_inv_remove1: "paired_inv pending cb \<Longrightarrow> paired_inv (remove1 t pending) cb"
  by (auto simp: paired_inv_def count_list_remove1 dest: notin_set_remove1)

text \<open>A new generation: the counts are zero and no pending token is of the new generation.\<close>

lemma paired_inv_fresh:
  assumes i: "paired_inv pending cb" and o: "unat (cb_generation cb) \<le> unat (cb_generation cb + 1)"
    and g1: "cb_generation cb1 = cb_generation cb + 1"
    and c1: "cb_counts cb1 = Counts_init" and s1: "cb_settings cb1 = cb_settings cb"
  shows "paired_inv pending cb1"
proof -
  from o have u: "unat (cb_generation cb + 1) = unat (cb_generation cb) + 1"
    by (rule unat_incr64)
  have "cb_generation cb + 1 \<notin> set pending"
  proof
    assume "cb_generation cb + 1 \<in> set pending"
    with i have "unat (cb_generation cb + 1) \<le> unat (cb_generation cb)"
      by (simp add: paired_inv_def)
    with u show False by simp
  qed
  then have "count_list pending (cb_generation cb + 1) = 0"
    by (simp add: count_list_0_iff)
  moreover from i c1 s1 have "streaks_inv cb1"
    by (auto simp: paired_inv_def intro: streaks_inv_fresh)
  ultimately show ?thesis
    using i u by (auto simp: paired_inv_def g1 c1 Counts_init_def)
qed

lemma paired_inv_onRequest:
  assumes i: "paired_inv pending cb" and w: "requests (cb_counts cb) + 1 \<noteq> 0"
  shows "paired_inv (cb_generation cb # pending)
           (cb\<lparr>cb_counts := Counts_onRequest (cb_counts cb)\<rparr>)"
proof -
  from w have "unat (requests (cb_counts cb) + 1) = unat (requests (cb_counts cb)) + 1"
    by (rule unat_incr32)
  with i streaks_inv_onRequest [of cb] show ?thesis
    by (simp add: paired_inv_def Counts_onRequest_def)
qed

lemma paired_inv_tally:
  assumes i: "paired_inv pending cb" and t: "cb_generation cb \<in> set pending"
  shows "paired_inv (remove1 (cb_generation cb) pending)
           (cb\<lparr>cb_counts := Counts_onSuccess (cb_counts cb)\<rparr>)"
    and "paired_inv (remove1 (cb_generation cb) pending)
           (cb\<lparr>cb_counts := Counts_onFailure (cb_counts cb)\<rparr>)"
proof -
  let ?c = "cb_counts cb"
  from t have "count_list pending (cb_generation cb) \<noteq> 0"
    by (simp add: count_list_0_iff)
  then have p: "0 < count_list pending (cb_generation cb)"
    by simp
  have "unat (requests ?c) < 2 ^ 32"
    using unsigned_less [of "requests ?c"] by simp
  with i p have ts: "unat (total_successes ?c) < 2 ^ 32 - 1"
    and tf: "unat (total_failures ?c) < 2 ^ 32 - 1"
    by (simp_all add: paired_inv_def)
  then have u: "unat (total_successes ?c + 1) = unat (total_successes ?c) + 1"
    "unat (total_failures ?c + 1) = unat (total_failures ?c) + 1"
    by (simp_all add: unat_word_ariths)
  then have "unat (total_successes ?c + 1) \<noteq> 0" "unat (total_failures ?c + 1) \<noteq> 0"
    by simp_all
  then have nz: "total_successes ?c + 1 \<noteq> 0" "total_failures ?c + 1 \<noteq> 0"
    by (metis unat_0)+
  from i have s: "streaks_inv cb"
    by (simp add: paired_inv_def)
  from i p t u nz streaks_inv_onSuccess [OF s nz(1)]
  show "paired_inv (remove1 (cb_generation cb) pending)
           (cb\<lparr>cb_counts := Counts_onSuccess (cb_counts cb)\<rparr>)"
    by (auto simp: paired_inv_def Counts_onSuccess_def count_list_remove1
        dest: notin_set_remove1)
  from i p t u nz streaks_inv_onFailure [OF s nz(2)]
  show "paired_inv (remove1 (cb_generation cb) pending)
           (cb\<lparr>cb_counts := Counts_onFailure (cb_counts cb)\<rparr>)"
    by (auto simp: paired_inv_def Counts_onFailure_def count_list_remove1
        dest: notin_set_remove1)
qed

text \<open>What \<^verbatim>\<open>afterRequest\<close> leaves, from what \<^verbatim>\<open>currentState\<close> left.\<close>

lemma afterRequest_shape:
  assumes cs: "currentState now cb = (g0, st, cb0)"
    and r: "ready_to_trip (cb_settings cb) \<noteq> None"
  shows "\<exists>cb2. afterRequest now tok success cb = Inr cb2 \<and>
           (cb2 = cb0 \<or>
            (g0 = tok \<and> cb2 = cb0\<lparr>cb_counts := Counts_onSuccess (cb_counts cb0)\<rparr>) \<or>
            (g0 = tok \<and> cb2 = cb0\<lparr>cb_counts := Counts_onFailure (cb_counts cb0)\<rparr>) \<or>
            (cb_generation cb2 = cb_generation cb0 + 1 \<and> cb_counts cb2 = Counts_init \<and>
             cb_settings cb2 = cb_settings cb0))"
proof -
  from cs r obtain f where f: "ready_to_trip (cb_settings cb0) = Some f"
    using settings_currentState by fastforce
  show ?thesis
    using cs f
    by (cases st)
       (auto simp: afterRequest_def onSuccess_def onFailure_def setState_eq Let_def)
qed

lemma paired_inv_step:
  assumes i: "paired_inv pending cb" and p: "paired pending (c # calls) cb"
    and w: "requests_fit c cb" and o: "generation_fits c cb"
  shows "\<exists>cb1 pending1. step c cb = Inr cb1 \<and> paired pending1 calls cb1 \<and>
           paired_inv pending1 cb1"
proof (cases c)
  case (Call_beforeRequest now)
  obtain g0 st cb0 where cs: "currentState now cb = (g0, st, cb0)"
    by (cases "currentState now cb") auto
  obtain err gen cb1 where b: "beforeRequest now cb = (err, gen, cb1)"
    by (cases "beforeRequest now cb") auto
  from currentState_result [OF cs] have r: "g0 = cb_generation cb0" "st = cb_state cb0"
    by simp_all
  from b cs r have g: "gen = cb_generation cb0" "cb_generation cb1 = cb_generation cb0"
    by (auto simp: beforeRequest_def split: if_splits)
  from o Call_beforeRequest b g
  have "unat (cb_generation cb) \<le> unat (cb_generation cb0)"
    by (simp add: generation_fits_def)
  with currentState_cases [OF cs] paired_inv_fresh [OF i, of cb0] i
  have i0: "paired_inv pending cb0"
    by auto
  let ?P = "if err = ResultCodeOK then gen # pending else pending"
  have "paired_inv ?P cb1"
  proof (cases "err = ResultCodeOK")
    case False
    with b cs have "cb1 = cb0"
      by (auto simp: beforeRequest_def split: if_splits)
    with False i0 show ?thesis by simp
  next
    case True
    with b cs have e: "cb1 = cb0\<lparr>cb_counts := Counts_onRequest (cb_counts cb0)\<rparr>"
      by (auto simp: beforeRequest_def ResultCodeOK_def ResultCodeErrOpenState_def
          ResultCodeErrTooManyRequests_def split: if_splits)
    from w Call_beforeRequest b True e have "requests (cb_counts cb0) + 1 \<noteq> 0"
      by (simp add: Counts_onRequest_def)
    from paired_inv_onRequest [OF i0 this] True e g show ?thesis
      by simp
  qed
  moreover from p Call_beforeRequest b have "paired ?P calls cb1"
    by simp
  ultimately show ?thesis
    using Call_beforeRequest b by auto
next
  case (Call_afterRequest now tok success)
  with p have t: "tok \<in> set pending"
    by simp
  obtain g0 st cb0 where cs: "currentState now cb = (g0, st, cb0)"
    by (cases "currentState now cb") auto
  from currentState_result [OF cs] have r: "g0 = cb_generation cb0"
    by simp
  from i have rt: "ready_to_trip (cb_settings cb) \<noteq> None"
    by (simp add: paired_inv_def streaks_inv_def)
  from afterRequest_shape [OF cs rt, of tok success] obtain cb2 where
    a: "afterRequest now tok success cb = Inr cb2"
    and sh: "cb2 = cb0 \<or>
            (g0 = tok \<and> cb2 = cb0\<lparr>cb_counts := Counts_onSuccess (cb_counts cb0)\<rparr>) \<or>
            (g0 = tok \<and> cb2 = cb0\<lparr>cb_counts := Counts_onFailure (cb_counts cb0)\<rparr>) \<or>
            (cb_generation cb2 = cb_generation cb0 + 1 \<and> cb_counts cb2 = Counts_init \<and>
             cb_settings cb2 = cb_settings cb0)"
    by blast
  from o Call_afterRequest a have le: "unat (cb_generation cb) \<le> unat (cb_generation cb2)"
    by (simp add: generation_fits_def)
  from currentState_cases [OF cs]
  have g01: "cb_generation cb0 = cb_generation cb \<or> cb_generation cb0 = cb_generation cb + 1"
    by auto
  from sh have g02: "cb_generation cb2 = cb_generation cb0 \<or>
      cb_generation cb2 = cb_generation cb0 + 1"
    by auto
  from generation_order [OF le g01 g02]
  have o1: "cb_generation cb0 = cb_generation cb + 1 \<longrightarrow>
      unat (cb_generation cb) \<le> unat (cb_generation cb + 1)"
    and o2: "cb_generation cb2 = cb_generation cb0 + 1 \<longrightarrow>
      unat (cb_generation cb0) \<le> unat (cb_generation cb0 + 1)"
    by simp_all
  from currentState_cases [OF cs] o1 paired_inv_fresh [OF i, of cb0] i
  have i0: "paired_inv pending cb0"
    by auto
  from t r have t0: "g0 = tok \<Longrightarrow> cb_generation cb0 \<in> set pending"
    by simp
  have "paired_inv (remove1 tok pending) cb2"
    using sh
  proof (elim disjE conjE)
    assume "cb2 = cb0"
    with paired_inv_remove1 [OF i0] show ?thesis by simp
  next
    assume "g0 = tok" "cb2 = cb0\<lparr>cb_counts := Counts_onSuccess (cb_counts cb0)\<rparr>"
    with paired_inv_tally(1) [OF i0 t0] r show ?thesis by simp
  next
    assume "g0 = tok" "cb2 = cb0\<lparr>cb_counts := Counts_onFailure (cb_counts cb0)\<rparr>"
    with paired_inv_tally(2) [OF i0 t0] r show ?thesis by simp
  next
    assume f: "cb_generation cb2 = cb_generation cb0 + 1" "cb_counts cb2 = Counts_init"
      "cb_settings cb2 = cb_settings cb0"
    from paired_inv_fresh [OF paired_inv_remove1 [OF i0] _ f] o2 f(1) show ?thesis
      by simp
  qed
  moreover from p Call_afterRequest a have "paired (remove1 tok pending) calls cb2"
    by simp
  ultimately show ?thesis
    using Call_afterRequest a by auto
next
  case (Call_GetState now)
  obtain g0 st cb0 where cs: "currentState now cb = (g0, st, cb0)"
    by (cases "currentState now cb") auto
  from o Call_GetState cs
  have "unat (cb_generation cb) \<le> unat (cb_generation cb0)"
    by (simp add: generation_fits_def GetState_def)
  with currentState_cases [OF cs] paired_inv_fresh [OF i, of cb0] i
  have "paired_inv pending cb0"
    by auto
  moreover from p Call_GetState cs have "paired pending calls cb0"
    by (simp add: GetState_def)
  ultimately show ?thesis
    using Call_GetState cs by (auto simp: GetState_def)
qed

lemma paired_inv_run:
  "paired_inv pending cb \<Longrightarrow> paired pending calls cb \<Longrightarrow> always requests_fit calls cb \<Longrightarrow>
   always generation_fits calls cb \<Longrightarrow>
   \<exists>cb1 pending1. run calls cb = Inr cb1 \<and> paired_inv pending1 cb1"
proof (induction calls arbitrary: pending cb)
  case Nil
  then show ?case by auto
next
  case (Cons c calls)
  from Cons.prems have "requests_fit c cb" "generation_fits c cb"
    by simp_all
  from paired_inv_step [OF Cons.prems(1,2) this] obtain cb1 pending1 where
    s: "step c cb = Inr cb1" and p: "paired pending1 calls cb1"
    and i: "paired_inv pending1 cb1"
    by blast
  from Cons.prems s have "always requests_fit calls cb1" "always generation_fits calls cb1"
    by simp_all
  from Cons.IH [OF i p this] s show ?case
    by simp
qed

lemma paired_inv_new_CircuitBreaker: "paired_inv [] (new_CircuitBreaker st now)"
  using streaks_inv_new_CircuitBreaker [of st now]
  by (simp add: paired_inv_def new_CircuitBreaker_def toNewGeneration_eq Counts_init_def Let_def)

subsection \<open>Where the invariant fails\<close>

lemma run_append:
  "run (xs @ ys) cb = (case run xs cb of Inl e \<Rightarrow> Inl e | Inr cb1 \<Rightarrow> run ys cb1)"
  by (induction xs arbitrary: cb) (auto split: sum.splits)

lemma always_append:
  "always P (xs @ ys) cb =
     (always P xs cb \<and> (case run xs cb of Inl e \<Rightarrow> True | Inr cb1 \<Rightarrow> always P ys cb1))"
  by (induction xs arbitrary: cb) (auto split: sum.splits)

lemma concat_replicate_Suc:
  "concat (replicate (Suc n) block) = concat (replicate n block) @ block"
  by (induction n) simp_all

text \<open>A block of calls repeated \<open>n\<close> times, taking the breaker through the states \<open>F 0\<close>, \<open>F 1\<close>, ...\<close>

lemma run_repeat:
  assumes "\<And>k. k < n \<Longrightarrow> run block (F k) = Inr (F (Suc k))"
  shows "run (concat (replicate n block)) (F 0) = Inr (F n)"
  using assms
proof (induction n)
  case 0
  then show ?case by simp
next
  case (Suc n)
  from Suc have "run (concat (replicate n block)) (F 0) = Inr (F n)"
    "run block (F n) = Inr (F (Suc n))"
    by simp_all
  then show ?case
    unfolding concat_replicate_Suc run_append by simp
qed

lemma always_repeat:
  assumes "\<And>k. k < n \<Longrightarrow> run block (F k) = Inr (F (Suc k))"
    and "\<And>k. k < n \<Longrightarrow> always P block (F k)"
  shows "always P (concat (replicate n block)) (F 0)"
  using assms
proof (induction n)
  case 0
  then show ?case by simp
next
  case (Suc n)
  from Suc.prems have "run (concat (replicate n block)) (F 0) = Inr (F n)"
    by (simp add: run_repeat)
  moreover from Suc have "always P (concat (replicate n block)) (F 0)" "always P block (F n)"
    by simp_all
  ultimately show ?case
    unfolding concat_replicate_Suc always_append by simp
qed

lemma paired_repeat:
  assumes "\<And>k rest. k < n \<Longrightarrow> paired pending (block @ rest) (F k) = paired pending rest (F (Suc k))"
  shows "paired pending (concat (replicate n block) @ rest) (F 0) = paired pending rest (F n)"
  using assms
proof (induction n arbitrary: rest)
  case 0
  then show ?case by simp
next
  case (Suc n)
  from Suc have "paired pending (concat (replicate n block) @ (block @ rest)) (F 0) =
      paired pending (block @ rest) (F n)"
    by simp
  with Suc.prems [of n rest] show ?case
    unfolding concat_replicate_Suc append_assoc by simp
qed

text \<open>Runs that wrap \<open>requests\<close>, the generation and \<open>total_successes\<close>.\<close>

lemma requests_wrap:
  "paired []
     (concat (replicate 4294967295 [Call_beforeRequest 0, Call_afterRequest 0 1 True]) @
      [Call_beforeRequest 0])
     (new_CircuitBreaker Settings_init 0) \<and>
   always generation_fits
     (concat (replicate 4294967295 [Call_beforeRequest 0, Call_afterRequest 0 1 True]) @
      [Call_beforeRequest 0])
     (new_CircuitBreaker Settings_init 0) \<and>
   run (concat (replicate 4294967295 [Call_beforeRequest 0, Call_afterRequest 0 1 True]) @
        [Call_beforeRequest 0])
     (new_CircuitBreaker Settings_init 0) =
     Inr ((new_CircuitBreaker Settings_init 0)
            \<lparr>cb_counts := \<lparr>requests = 0, total_successes = 4294967295, total_failures = 0,
                            consecutive_successes = 4294967295, consecutive_failures = 0\<rparr>\<rparr>)"
proof -
  let ?block = "[Call_beforeRequest 0, Call_afterRequest 0 1 True]"
  define F where "F k = (new_CircuitBreaker Settings_init 0)
      \<lparr>cb_counts := \<lparr>requests = of_nat k, total_successes = of_nat k, total_failures = 0,
                      consecutive_successes = of_nat k, consecutive_failures = 0\<rparr>\<rparr>" for k
  have c: "of_nat k + (1::32 word) = 1 + of_nat k" for k
    by simp
  have F0: "new_CircuitBreaker Settings_init 0 = F 0"
    by (simp add: F_def cb_defs)
  have r: "run ?block (F k) = Inr (F (Suc k))" for k
    by (simp add: F_def cb_defs c)
  have g: "always generation_fits ?block (F k)" for k
    by (simp add: F_def cb_defs generation_fits_def)
  have p: "paired [] (?block @ rest) (F k) = paired [] rest (F (Suc k))" for k rest
    by (simp add: F_def cb_defs c)
  note rn = run_repeat [of 4294967295 ?block F, OF r]
  note gn = always_repeat [of 4294967295 ?block F generation_fits, OF r g]
  note pn = paired_repeat [of 4294967295 "[]" ?block F "[Call_beforeRequest 0]", OF p]
  have l: "run [Call_beforeRequest 0] (F 4294967295) =
      Inr ((F 0)\<lparr>cb_counts := \<lparr>requests = 0, total_successes = 4294967295, total_failures = 0,
                            consecutive_successes = 4294967295, consecutive_failures = 0\<rparr>\<rparr>)"
    "always generation_fits [Call_beforeRequest 0] (F 4294967295)"
    "paired [] [Call_beforeRequest 0] (F 4294967295)"
    by (simp_all add: F_def cb_defs generation_fits_def)
  show ?thesis
    unfolding F0 run_append always_append pn rn using gn l by simp
qed

lemma generation_wrap:
  "paired []
     (Call_beforeRequest 10 #
      concat (replicate 18446744073709551615 [Call_GetState 10]) @
      [Call_afterRequest 10 2 True])
     (new_CircuitBreaker (Settings_init\<lparr>interval := - 1\<rparr>) 10) \<and>
   always requests_fit
     (Call_beforeRequest 10 #
      concat (replicate 18446744073709551615 [Call_GetState 10]) @
      [Call_afterRequest 10 2 True])
     (new_CircuitBreaker (Settings_init\<lparr>interval := - 1\<rparr>) 10) \<and>
   run (Call_beforeRequest 10 #
        concat (replicate 18446744073709551615 [Call_GetState 10]) @
        [Call_afterRequest 10 2 True])
     (new_CircuitBreaker (Settings_init\<lparr>interval := - 1\<rparr>) 10) =
     Inr ((new_CircuitBreaker (Settings_init\<lparr>interval := - 1\<rparr>) 10)
            \<lparr>cb_generation := 2,
             cb_counts := \<lparr>requests = 0, total_successes = 1, total_failures = 0,
                            consecutive_successes = 1, consecutive_failures = 0\<rparr>\<rparr>)"
proof -
  let ?cb = "new_CircuitBreaker (Settings_init\<lparr>interval := - 1\<rparr>) 10"
  let ?block = "[Call_GetState 10]"
  define F where "F k = ?cb
      \<lparr>cb_generation := 2 + of_nat k,
       cb_counts := (if k = 0 then Counts_onRequest Counts_init else Counts_init)\<rparr>" for k
  have c: "x + of_nat k + (1::64 word) = x + (1 + of_nat k)" for x k
    by simp
  have b: "beforeRequest 10 ?cb = (ResultCodeOK, 2, F 0)"
    by (simp add: F_def cb_defs word_sless_alt)
  then have s: "step (Call_beforeRequest 10) ?cb = Inr (F 0)"
    by simp
  have r: "run ?block (F k) = Inr (F (Suc k))" for k
    by (simp add: F_def cb_defs word_sless_alt c)
  have q: "always requests_fit ?block (F k)" for k
    by simp
  have p: "paired [2] (?block @ rest) (F k) = paired [2] rest (F (Suc k))" for k rest
    by (simp add: F_def cb_defs word_sless_alt c)
  note rn = run_repeat [of 18446744073709551615 ?block F, OF r]
  note qn = always_repeat [of 18446744073709551615 ?block F requests_fit, OF r q]
  note pn = paired_repeat [of 18446744073709551615 "[2]" ?block F "[Call_afterRequest 10 2 True]", OF p]
  have l: "afterRequest 10 2 True (F 18446744073709551615) =
      Inr (?cb\<lparr>cb_generation := 2,
             cb_counts := \<lparr>requests = 0, total_successes = 1, total_failures = 0,
                            consecutive_successes = 1, consecutive_failures = 0\<rparr>\<rparr>)"
    by (simp add: F_def cb_defs word_sless_alt)
  have r0: "requests_fit (Call_beforeRequest 10) ?cb"
    by (simp add: b) (simp add: F_def cb_defs)
  have "paired []
     (Call_beforeRequest 10 #
      concat (replicate 18446744073709551615 [Call_GetState 10]) @
      [Call_afterRequest 10 2 True]) ?cb =
     paired [2]
       (concat (replicate 18446744073709551615 [Call_GetState 10]) @
        [Call_afterRequest 10 2 True]) (F 0)"
    by (simp add: b del: concat_replicate_single)
  also note pn
  also have "paired [2] [Call_afterRequest 10 2 True] (F 18446744073709551615)"
    by (simp add: l)
  finally have p1: "paired []
     (Call_beforeRequest 10 #
      concat (replicate 18446744073709551615 [Call_GetState 10]) @
      [Call_afterRequest 10 2 True]) ?cb"
    by simp
  have q1: "always requests_fit
     (Call_beforeRequest 10 #
      concat (replicate 18446744073709551615 [Call_GetState 10]) @
      [Call_afterRequest 10 2 True]) ?cb"
    using r0 qn
    by (simp add: b always_append rn l del: concat_replicate_single)
  have r1: "run (Call_beforeRequest 10 #
        concat (replicate 18446744073709551615 [Call_GetState 10]) @
        [Call_afterRequest 10 2 True]) ?cb =
     Inr (?cb\<lparr>cb_generation := 2,
             cb_counts := \<lparr>requests = 0, total_successes = 1, total_failures = 0,
                            consecutive_successes = 1, consecutive_failures = 0\<rparr>\<rparr>)"
    by (simp add: b run_append rn l del: concat_replicate_single)
  from p1 q1 r1 show ?thesis
    by blast
qed

lemma totals_wrap:
  "run (Call_afterRequest 0 1 False #
        concat (replicate 4294967296 [Call_afterRequest 0 1 True]))
     (new_CircuitBreaker Settings_init 0) =
     Inr ((new_CircuitBreaker Settings_init 0)
            \<lparr>cb_counts := \<lparr>requests = 0, total_successes = 0, total_failures = 1,
                            consecutive_successes = 0, consecutive_failures = 0\<rparr>\<rparr>)"
proof -
  let ?cb = "new_CircuitBreaker Settings_init 0"
  let ?block = "[Call_afterRequest 0 1 True]"
  define F where "F k = ?cb
      \<lparr>cb_counts := \<lparr>requests = 0, total_successes = of_nat k, total_failures = 1,
                      consecutive_successes = of_nat k,
                      consecutive_failures = (if k = 0 then 1 else 0)\<rparr>\<rparr>" for k
  have c: "of_nat k + (1::32 word) = 1 + of_nat k" for k
    by simp
  have s: "afterRequest 0 1 False ?cb = Inr (F 0)"
    by (simp add: F_def cb_defs)
  have r: "run ?block (F k) = Inr (F (Suc k))" for k
    by (simp add: F_def cb_defs c)
  note rn = run_repeat [of 4294967296 ?block F, OF r]
  have "F 4294967296 = ?cb
            \<lparr>cb_counts := \<lparr>requests = 0, total_successes = 0, total_failures = 1,
                            consecutive_successes = 0, consecutive_failures = 0\<rparr>\<rparr>"
    by (simp add: F_def)
  with s show ?thesis
    by (simp add: rn del: concat_replicate_single)
qed

text \<open>
  Four sequences of calls. The first three run on a breaker with default settings built
  at time 0 (Closed, generation 1, no reset due).

  \<^item> \<^verbatim>\<open>afterRequest\<close> is called with the current generation 1 and no \<^verbatim>\<open>beforeRequest\<close> before
    it: the success is tallied, so \<open>total_successes = 1\<close> while \<open>requests = 0\<close>.
  \<^item> Every \<^verbatim>\<open>afterRequest\<close> reports the admission just before it, as \<^verbatim>\<open>Execute\<close> does, and
    the generation stays 1: after \<open>2 ^ 32 - 1\<close> requests served with success, one more
    admission wraps \<open>requests\<close> to 0 while \<open>total_successes\<close> is 4294967295.
  \<^item> No admission is reported: one failure, then \<open>2 ^ 32\<close> successes, all reported with the
    current generation 1. The successes end the streak of failures and wrap
    \<open>total_successes\<close> and \<open>consecutive_successes\<close> to 0: both consecutive counters are 0
    while \<open>total_failures = 1\<close>.
  \<^item> On a breaker with \<open>interval = -1ns\<close> built at time 10, every call at time 10 begins a
    generation. A request is admitted in generation 2; \<open>2 ^ 64 - 1\<close> calls of \<^verbatim>\<open>GetState\<close>
    and the \<^verbatim>\<open>currentState\<close> of the report bring the 64-bit generation back to 2, so the
    report of that admission, a success, is tallied on counts that have since been cleared:
    \<open>total_successes = 1\<close> while \<open>requests = 0\<close>. Here \<open>requests\<close> never wraps.
\<close>

theorem Counts_invariant_counterexample:
  "run [Call_afterRequest 0 1 True] (new_CircuitBreaker Settings_init 0) =
     Inr ((new_CircuitBreaker Settings_init 0)
            \<lparr>cb_counts := \<lparr>requests = 0, total_successes = 1, total_failures = 0,
                            consecutive_successes = 1, consecutive_failures = 0\<rparr>\<rparr>) \<and>
   \<not> Counts_invariant \<lparr>requests = 0, total_successes = 1, total_failures = 0,
                        consecutive_successes = 1, consecutive_failures = 0\<rparr> \<and>
   paired []
     (concat (replicate 4294967295 [Call_beforeRequest 0, Call_afterRequest 0 1 True]) @
      [Call_beforeRequest 0])
     (new_CircuitBreaker Settings_init 0) \<and>
   always generation_fits
     (concat (replicate 4294967295 [Call_beforeRequest 0, Call_afterRequest 0 1 True]) @
      [Call_beforeRequest 0])
     (new_CircuitBreaker Settings_init 0) \<and>
   run (concat (replicate 4294967295 [Call_beforeRequest 0, Call_afterRequest 0 1 True]) @
        [Call_beforeRequest 0])
     (new_CircuitBreaker Settings_init 0) =
     Inr ((new_CircuitBreaker Settings_init 0)
            \<lparr>cb_counts := \<lparr>requests = 0, total_successes = 4294967295, total_failures = 0,
                            consecutive_successes = 4294967295, consecutive_failures = 0\<rparr>\<rparr>) \<and>
   \<not> Counts_invariant
       \<lparr>requests = 0, total_successes = 4294967295, total_failures = 0,
        consecutive_successes = 4294967295, consecutive_failures = 0\<rparr> \<and>
   run (Call_afterRequest 0 1 False #
        concat (replicate 4294967296 [Call_afterRequest 0 1 True]))
     (new_CircuitBreaker Settings_init 0) =
     Inr ((new_CircuitBreaker Settings_init 0)
            \<lparr>cb_counts := \<lparr>requests = 0, total_successes = 0, total_failures = 1,
                            consecutive_successes = 0, consecutive_failures = 0\<rparr>\<rparr>) \<and>
   \<not> Counts_streaks \<lparr>requests = 0, total_successes = 0, total_failures = 1,
                      consecutive_successes = 0, consecutive_failures = 0\<rparr> \<and>
   paired []
     (Call_beforeRequest 10 #
      concat (replicate 18446744073709551615 [Call_GetState 10]) @
      [Call_afterRequest 10 2 True])
     (new_CircuitBreaker (Settings_init\<lparr>interval := - 1\<rparr>) 10) \<and>
   always requests_fit
     (Call_beforeRequest 10 #
      concat (replicate 18446744073709551615 [Call_GetState 10]) @
      [Call_afterRequest 10 2 True])
     (new_CircuitBreaker (Settings_init\<lparr>interval := - 1\<rparr>) 10) \<and>
   run (Call_beforeRequest 10 #
        concat (replicate 18446744073709551615 [Call_GetState 10]) @
        [Call_afterRequest 10 2 True])
     (new_CircuitBreaker (Settings_init\<lparr>interval := - 1\<rparr>) 10) =
     Inr ((new_CircuitBreaker (Settings_init\<lparr>interval := - 1\<rparr>) 10)
            \<lparr>cb_generation := 2,
             cb_counts := \<lparr>requests = 0, total_successes = 1, total_failures = 0,
                            consecutive_successes = 1, consecutive_failures = 0\<rparr>\<rparr>)"
proof -
  have unpaired: "run [Call_afterRequest 0 1 True] (new_CircuitBreaker Settings_init 0) =
     Inr ((new_CircuitBreaker Settings_init 0)
            \<lparr>cb_counts := \<lparr>requests = 0, total_successes = 1, total_failures = 0,
                            consecutive_successes = 1, consecutive_failures = 0\<rparr>\<rparr>)"
    by (simp add: cb_defs)
  have broken: "\<not> Counts_invariant \<lparr>requests = 0, total_successes = 1, total_failures = 0,
                        consecutive_successes = 1, consecutive_failures = 0\<rparr>"
    "\<not> Counts_invariant
       \<lparr>requests = 0, total_successes = 4294967295, total_failures = 0,
        consecutive_successes = 4294967295, consecutive_failures = 0\<rparr>"
    "\<not> Counts_streaks \<lparr>requests = 0, total_successes = 0, total_failures = 1,
                      consecutive_successes = 0, consecutive_failures = 0\<rparr>"
    by (simp_all add: Counts_invariant_def Counts_streaks_def)
  from unpaired broken requests_wrap totals_wrap generation_wrap show ?thesis
    by blast
qed

text \<open>
  Claim C6, with the conditions under which each part holds. In every state reached from
  construction by any sequence of \<^verbatim>\<open>beforeRequest\<close>, \<^verbatim>\<open>afterRequest\<close> and \<^verbatim>\<open>GetState\<close> calls,
  no call throws and the two consecutive counters are not both non-zero. When no tallied
  outcome of the sequence wraps \<open>total_successes\<close> or \<open>total_failures\<close>, exactly one of the
  two consecutive counters is non-zero, or both are zero and no outcome has been recorded
  in the current generation. When every \<^verbatim>\<open>afterRequest\<close> of the sequence reports a
  generation that an earlier \<^verbatim>\<open>beforeRequest\<close> of the sequence handed out on admission and
  that no other \<^verbatim>\<open>afterRequest\<close> has reported (as \<^verbatim>\<open>Execute\<close> calls them), no admission wraps
  \<open>requests\<close> and no call wraps the generation, then
  \<open>total_successes + total_failures \<le> requests\<close> as well.
\<close>

theorem Counts_invariant_reachable:
  "(\<exists>cb. run calls (new_CircuitBreaker st now) = Inr cb \<and>
      \<not> (consecutive_successes (cb_counts cb) \<noteq> 0 \<and> consecutive_failures (cb_counts cb) \<noteq> 0)) \<and>
   (always totals_fit calls (new_CircuitBreaker st now) \<longrightarrow>
      (\<exists>cb. run calls (new_CircuitBreaker st now) = Inr cb \<and> Counts_streaks (cb_counts cb))) \<and>
   (paired [] calls (new_CircuitBreaker st now) \<and>
    always requests_fit calls (new_CircuitBreaker st now) \<and>
    always generation_fits calls (new_CircuitBreaker st now) \<longrightarrow>
      (\<exists>cb. run calls (new_CircuitBreaker st now) = Inr cb \<and> Counts_invariant (cb_counts cb)))"
proof -
  let ?cb = "new_CircuitBreaker st now"
  from streak_inv_run [OF streak_inv_new_CircuitBreaker, of calls st now]
  have any: "\<exists>cb. run calls ?cb = Inr cb \<and>
      \<not> (consecutive_successes (cb_counts cb) \<noteq> 0 \<and> consecutive_failures (cb_counts cb) \<noteq> 0)"
    by (auto simp: streak_inv_def)
  have streaks: "\<exists>cb. run calls ?cb = Inr cb \<and> Counts_streaks (cb_counts cb)"
    if t: "always totals_fit calls ?cb"
    using streaks_inv_run [OF streaks_inv_new_CircuitBreaker t]
    by (auto simp: streaks_inv_def)
  have "\<exists>cb. run calls ?cb = Inr cb \<and> Counts_invariant (cb_counts cb)"
    if p: "paired [] calls ?cb" and r: "always requests_fit calls ?cb"
      and g: "always generation_fits calls ?cb"
  proof -
    from paired_inv_run [OF paired_inv_new_CircuitBreaker p r g] obtain cb pending where
      "run calls ?cb = Inr cb" "paired_inv pending cb"
      by blast
    then show ?thesis
      by (auto simp: paired_inv_def streaks_inv_def Counts_invariant_def)
  qed
  with any streaks show ?thesis
    by blast
qed

theorem Counts_invariant_reachable_witness:
  "always totals_fit [Call_beforeRequest 1, Call_beforeRequest 2, Call_afterRequest 3 1 True,
      Call_GetState 4, Call_afterRequest 5 1 False] (new_CircuitBreaker Settings_init 0) \<and>
   paired [] [Call_beforeRequest 1, Call_beforeRequest 2, Call_afterRequest 3 1 True,
      Call_GetState 4, Call_afterRequest 5 1 False] (new_CircuitBreaker Settings_init 0) \<and>
   always requests_fit [Call_beforeRequest 1, Call_beforeRequest 2, Call_afterRequest 3 1 True,
      Call_GetState 4, Call_afterRequest 5 1 False] (new_CircuitBreaker Settings_init 0) \<and>
   always generation_fits [Call_beforeRequest 1, Call_beforeRequest 2,
      Call_afterRequest 3 1 True, Call_GetState 4, Call_afterRequest 5 1 False]
      (new_CircuitBreaker Settings_init 0) \<and>
   (\<exists>cb. run [Call_beforeRequest 1, Call_beforeRequest 2, Call_afterRequest 3 1 True,
      Call_GetState 4, Call_afterRequest 5 1 False] (new_CircuitBreaker Settings_init 0) = Inr cb \<and>
      Counts_streaks (cb_counts cb) \<and> Counts_invariant (cb_counts cb))"
proof -
  let ?calls = "[Call_beforeRequest 1, Call_beforeRequest 2, Call_afterRequest 3 1 True,
      Call_GetState 4, Call_afterRequest 5 1 False]"
  have t: "always totals_fit ?calls (new_CircuitBreaker Settings_init 0)"
    by (simp add: cb_defs)
  have p: "paired [] ?calls (new_CircuitBreaker Settings_init 0)"
    by (simp add: cb_defs)
  have r: "always requests_fit ?calls (new_CircuitBreaker Settings_init 0)"
    by (simp add: cb_defs)
  have g: "always generation_fits ?calls (new_CircuitBreaker Settings_init 0)"
    by (simp add: cb_defs generation_fits_def)
  from Counts_invariant_reachable [of ?calls Settings_init 0] t p r g show ?thesis
    by (auto simp: Counts_invariant_def)
qed

end
